theory Spec2Isabelle
  imports Main "HOL-Library.Word" "HOL-Library.Multiset"
begin

unbundle bit_operations_syntax

section \<open>Machine types and the constants of kf128.h\<close>

type_synonym u8 = "8 word"
type_synonym u32 = "32 word"

text \<open>
  The header \<^verbatim>\<open>kf128.h\<close> is not among the source files. Its constants and the layout of
  \<^verbatim>\<open>kf_ctx\<close> are taken from the specification (data model and key schedule).
\<close>

text \<open>Modelled from the spec: the macro BLOCK_SIZE of kf128.h, a 128-bit block in bytes.\<close>

definition BLOCK_SIZE :: nat where
  "BLOCK_SIZE = 16"

text \<open>Modelled from the spec: the macro ROUNDS of kf128.h, 16 Feistel rounds.\<close>

definition ROUNDS :: nat where
  "ROUNDS = 16"

text \<open>Modelled from the spec: the macro SBOX_COUNT of kf128.h, one substitution box for each
  of the 8 bytes of a half block.\<close>

definition SBOX_COUNT :: nat where
  "SBOX_COUNT = 8"

text \<open>Modelled from the spec: the macro SBOX_SIZE of kf128.h, a permutation of the byte
  range.\<close>

definition SBOX_SIZE :: nat where
  "SBOX_SIZE = 256"

text \<open>Modelled from the spec: the macro PBOX_SIZE of kf128.h, equal to the number of
  substitution boxes.\<close>

definition PBOX_SIZE :: nat where
  "PBOX_SIZE = 8"

text \<open>Modelled from the spec: the macro WKEY_COUNT of kf128.h, two whitening quadruples.\<close>

definition WKEY_COUNT :: nat where
  "WKEY_COUNT = 2"

text \<open>Modelled from the spec: the macro KEY_SIZE of kf128.h, one seed for each substitution
  box, one for the permutation box, two words for each round and four for each whitening
  quadruple.\<close>

definition KEY_SIZE :: nat where
  "KEY_SIZE = SBOX_COUNT + 1 + 2 * ROUNDS + 4 * WKEY_COUNT"

text \<open>Modelled from the spec: the macro PHT_MAX of kf128.h, the modulus \<open>2^32\<close> of the
  pseudo-Hadamard transform. It does not fit a 32-bit integer, so C evaluates every
  expression it occurs in with a 64-bit type.\<close>

definition PHT_MAX :: nat where
  "PHT_MAX = 2 ^ 32"

text \<open>Modelled from the spec: the struct \<^verbatim>\<open>kf_ctx\<close> of kf128.h. The arrays are lists:
  \<^verbatim>\<open>sbox[SBOX_COUNT][SBOX_SIZE]\<close>, \<^verbatim>\<open>pbox[PBOX_SIZE]\<close>, \<^verbatim>\<open>skey[ROUNDS][2]\<close>
  and \<^verbatim>\<open>wkey[WKEY_COUNT][4]\<close>.\<close>

record kf_ctx =
  sbox :: "u8 list list"
  pbox :: "u8 list"
  skey :: "u32 list list"
  wkey :: "u32 list list"

text \<open>What C's undefined behaviour becomes in the model: an access outside an object, and
  a read of storage that was never written.\<close>

datatype kf_error = OutOfBounds | Uninitialised

section \<open>The linear feedback shift register\<close>

text \<open>\<^verbatim>\<open>kf_lfsr\<close>: the register is passed by pointer; the model returns its new value.\<close>

definition kf_lfsr :: "u32 \<Rightarrow> u32" where
  "kf_lfsr shift_register =
     push_bit 31
       ((drop_bit 31 shift_register XOR drop_bit 6 shift_register XOR
         drop_bit 4 shift_register XOR drop_bit 2 shift_register XOR
         drop_bit 1 shift_register XOR shift_register) AND 1)
     OR drop_bit 1 shift_register"

text \<open>The loop \<^verbatim>\<open>for (int i = 0; i < n; i++) kf_lfsr(shift_register)\<close>, which the source
  runs with \<open>n = 8\<close> for a byte and with \<open>n = 32\<close> in the key schedule.\<close>

function kf_lfsr_loop :: "nat \<Rightarrow> nat \<Rightarrow> u32 \<Rightarrow> u32" where
  "kf_lfsr_loop n i shift_register =
     (if i < n then kf_lfsr_loop n (i + 1) (kf_lfsr shift_register) else shift_register)"
  by pat_completeness auto
termination
  by (relation "measure (\<lambda>(n, i, shift_register). n - i)") auto

declare kf_lfsr_loop.simps [simp del]

text \<open>\<^verbatim>\<open>kf_lfsr_byte\<close>: eight steps of the register, then its low byte. The result is the
  byte and the register the pointer is left with.\<close>

definition kf_lfsr_byte :: "u32 \<Rightarrow> u8 \<times> u32" where
  "kf_lfsr_byte shift_register =
     (let r = kf_lfsr_loop 8 0 shift_register in (ucast (r AND 0xFF), r))"

section \<open>The pseudo-Hadamard transform\<close>

text \<open>
  \<^verbatim>\<open>kf_pht\<close> takes four pointers, and its only caller passes the same two cells as inputs
  and as outputs. The model keeps the pointers: \<open>mem\<close> is the word store they point into
  and each pointer is an index. The statements are those of the source in their order,
  so every read of \<open>*a\<close> and \<open>*b\<close> precedes the first write. The operator \<^verbatim>\<open>%\<close> binds
  tighter than \<^verbatim>\<open>+\<close>; the product \<^verbatim>\<open>2 * (*b)\<close> is an \<^verbatim>\<open>unsigned int\<close> and wraps; the
  sums are 64-bit and are cut to 32 bits by the assignment.
\<close>

definition kf_pht :: "u32 list \<Rightarrow> nat \<Rightarrow> nat \<Rightarrow> nat \<Rightarrow> nat \<Rightarrow> u32 list" where
  "kf_pht mem a b a_prime b_prime =
     (let ap = (word_of_nat (unat (mem ! a) + unat (mem ! b) mod PHT_MAX) :: u32);
          bp = (word_of_nat (unat (mem ! a) + unat (2 * (mem ! b)) mod PHT_MAX) :: u32);
          mem1 = mem[b_prime := bp];
          mem2 = mem1[a_prime := ap];
          mem3 = mem2[b_prime := bp]
      in mem3)"

section \<open>The box generator\<close>

text \<open>\<^verbatim>\<open>memmove(xs + dst, xs + src, n)\<close> inside one array: the \<open>n\<close> cells from \<open>src\<close> are
  read first and then written from \<open>dst\<close>; the cells outside \<open>[dst, dst + n)\<close> keep their
  value.\<close>

definition memmove_list :: "'a list \<Rightarrow> nat \<Rightarrow> nat \<Rightarrow> nat \<Rightarrow> 'a list" where
  "memmove_list xs dst src n = take dst xs @ take n (drop src xs) @ drop (dst + n) xs"

text \<open>
  \<^verbatim>\<open>kf_init_sbox\<close> and \<^verbatim>\<open>kf_init_pbox\<close> have the same body but for the constant that
  sizes them, so their second loop is one function of that size: \<open>s\<close> is the caller's
  array, \<open>indexes\<close> the local pool and \<open>seed_copy\<close> the local register. The byte drawn is
  reduced modulo \<open>sz - i\<close> in C's \<^verbatim>\<open>int\<close>, which is \<open>sz\<close> down to \<open>1\<close>.
\<close>

function kf_init_box_loop :: "nat \<Rightarrow> nat \<Rightarrow> u8 list \<Rightarrow> u8 list \<Rightarrow> u32 \<Rightarrow> u8 list" where
  "kf_init_box_loop sz i s indexes seed_copy =
     (if i < sz then
        (case kf_lfsr_byte seed_copy of
           (byte, seed_copy') \<Rightarrow>
             (let index = unat byte mod (sz - i);
                  s' = s[i := indexes ! index];
                  indexes' = memmove_list indexes index (index + 1) (sz - index - 1)
              in kf_init_box_loop sz (i + 1) s' indexes' seed_copy'))
      else s)"
  by pat_completeness auto
termination
  by (relation "measure (\<lambda>(sz, i, s, indexes, seed_copy). sz - i)") auto

declare kf_init_box_loop.simps [simp del]

text \<open>The first loop of both functions fills the pool with \<open>(uint8_t) i\<close>.\<close>

definition kf_init_sbox :: "u8 list \<Rightarrow> u32 \<Rightarrow> u8 list" where
  "kf_init_sbox s seed =
     kf_init_box_loop SBOX_SIZE 0 s (map word_of_nat [0..<SBOX_SIZE]) seed"

definition kf_init_pbox :: "u8 list \<Rightarrow> u32 \<Rightarrow> u8 list" where
  "kf_init_pbox p seed =
     kf_init_box_loop PBOX_SIZE 0 p (map word_of_nat [0..<PBOX_SIZE]) seed"

section \<open>The key schedule\<close>

text \<open>
  A \<^verbatim>\<open>const char *\<close> argument is modelled by the characters of the string; the object
  it points to is these characters and the terminating NUL. \<^verbatim>\<open>strlen\<close> counts up to the
  first NUL. A read at an index outside the object is undefined in C and is the error
  \<open>OutOfBounds\<close> here.
\<close>

definition c_string :: "u8 list \<Rightarrow> u8 list" where
  "c_string p = p @ [0]"

definition strlen :: "u8 list \<Rightarrow> nat" where
  "strlen mem = length (takeWhile (\<lambda>c. c \<noteq> 0) mem)"

definition read_char :: "u8 list \<Rightarrow> nat \<Rightarrow> kf_error + u8" where
  "read_char mem i = (if i < length mem then Inr (mem ! i) else Inl OutOfBounds)"

text \<open>
  The expression that loads the register from four characters,
  \<^verbatim>\<open>(uint8_t)c0 | (uint8_t)(c1 << 8) | (uint8_t)(c2 << 16) | (uint8_t)(c3 << 24)\<close>.
  Each shift promotes the \<^verbatim>\<open>char\<close> to \<^verbatim>\<open>int\<close> (by sign extension where \<^verbatim>\<open>char\<close> is
  signed, as \<open>scast\<close> does), and the cast to \<^verbatim>\<open>uint8_t\<close> is applied to the shifted value.
\<close>

definition kf_load_register :: "u8 \<Rightarrow> u8 \<Rightarrow> u8 \<Rightarrow> u8 \<Rightarrow> u32" where
  "kf_load_register c0 c1 c2 c3 =
     ucast c0
     OR ucast (ucast (push_bit 8 (scast c1 :: u32)) :: u8)
     OR ucast (ucast (push_bit 16 (scast c2 :: u32)) :: u8)
     OR ucast (ucast (push_bit 24 (scast c3 :: u32)) :: u8)"

text \<open>
  The loop over the accumulator, which the source writes twice (inside the chunk loop and
  after the remainder is loaded): word \<open>j\<close> takes the register by XOR, then the register
  makes 32 steps.
\<close>

function kf_mix_key :: "nat \<Rightarrow> u32 list \<Rightarrow> u32 \<Rightarrow> u32 list \<times> u32" where
  "kf_mix_key j key shift_register =
     (if j < KEY_SIZE then
        kf_mix_key (j + 1) (key[j := key ! j XOR shift_register])
          (kf_lfsr_loop 32 0 shift_register)
      else (key, shift_register))"
  by pat_completeness auto
termination
  by (relation "measure (\<lambda>(j, key, shift_register). KEY_SIZE - j)") auto

declare kf_mix_key.simps [simp del]

text \<open>
  \<^verbatim>\<open>size_t\<close> is taken as 64 bits wide; its arithmetic is that of the natural numbers
  modulo \<open>2^64\<close>. The difference \<^verbatim>\<open>passlen - 4\<close>, which bounds the chunk loop and is the
  base of the remainder's index, wraps around when \<open>passlen\<close> is below 4.
\<close>

definition SIZE_T_MOD :: nat where
  "SIZE_T_MOD = 2 ^ 64"

definition size_t_sub :: "nat \<Rightarrow> nat \<Rightarrow> nat" where
  "size_t_sub a b = (a + SIZE_T_MOD - b mod SIZE_T_MOD) mod SIZE_T_MOD"

definition size_t_add :: "nat \<Rightarrow> nat \<Rightarrow> nat" where
  "size_t_add a b = (a + b) mod SIZE_T_MOD"

definition kf_chunk_bound :: "nat \<Rightarrow> nat" where
  "kf_chunk_bound passlen = size_t_sub passlen 4"

text \<open>
  The chunk loop \<^verbatim>\<open>for (size_t i = 0; i < passlen - 4; i += 4)\<close>. The counter is a
  natural number: an iteration at \<open>i\<close> reads the characters \<open>i\<close> to \<open>i + 3\<close>, which must
  lie inside the string's object, so the counter stays far below \<open>2^64\<close>.
\<close>

function kf_chunk_loop ::
  "u8 list \<Rightarrow> nat \<Rightarrow> nat \<Rightarrow> u32 list \<Rightarrow> u32 \<Rightarrow> kf_error + (u32 list \<times> u32)" where
  "kf_chunk_loop mem bound i key shift_register =
     (if i < bound then
        (if i + 3 < length mem then
           (case kf_mix_key 0 key
                   (kf_load_register (mem ! i) (mem ! (i + 1)) (mem ! (i + 2)) (mem ! (i + 3))) of
              (key', shift_register') \<Rightarrow> kf_chunk_loop mem bound (i + 4) key' shift_register')
         else Inl OutOfBounds)
      else Inr (key, shift_register))"
  by pat_completeness auto
termination
  by (relation "measure (\<lambda>(mem, bound, i, key, shift_register). bound - i)") auto

declare kf_chunk_loop.simps [simp del]

text \<open>
  The loop that copies the remainder,
  \<^verbatim>\<open>for (size_t i = 0; i < passlen % 4; i++) last[i] = passphrase[passlen - 4 + i]\<close>.
  The index is computed in \<^verbatim>\<open>size_t\<close>.
\<close>

function kf_last_loop :: "u8 list \<Rightarrow> nat \<Rightarrow> nat \<Rightarrow> u8 list \<Rightarrow> kf_error + u8 list" where
  "kf_last_loop mem passlen i last_buf =
     (if i < passlen mod 4 then
        (case read_char mem (size_t_add (size_t_sub passlen 4) i) of
           Inl e \<Rightarrow> Inl e
         | Inr c \<Rightarrow> kf_last_loop mem passlen (i + 1) (last_buf[i := c]))
      else Inr last_buf)"
  by pat_completeness auto
termination
  by (relation "measure (\<lambda>(mem, passlen, i, last_buf). passlen mod 4 - i)") auto

declare kf_last_loop.simps [simp del]

text \<open>The first half of \<^verbatim>\<open>kf_expand_passphrase\<close>: the accumulator \<^verbatim>\<open>key\<close> after the chunk
  loop and the remainder step.\<close>

definition kf_expand_passphrase_key :: "u8 list \<Rightarrow> kf_error + u32 list" where
  "kf_expand_passphrase_key passphrase =
     (let mem = c_string passphrase;
          passlen = (if strlen mem > 256 then 256 else strlen mem)
      in case kf_chunk_loop mem (kf_chunk_bound passlen) 0 (replicate KEY_SIZE 0) 0 of
           Inl e \<Rightarrow> Inl e
         | Inr (key, shift_register) \<Rightarrow>
             (case kf_last_loop mem passlen 0 (replicate 4 0) of
                Inl e \<Rightarrow> Inl e
              | Inr last_buf \<Rightarrow>
                  Inr (fst (kf_mix_key 0 key
                         (kf_load_register (last_buf ! 0) (last_buf ! 1) (last_buf ! 2) (last_buf ! 3))))))"

text \<open>The second half: the accumulator is dealt out, in order, to the boxes of the
  caller's context, the round subkeys and the whitening keys.\<close>

definition kf_expand_passphrase_ctx :: "u32 list \<Rightarrow> kf_ctx \<Rightarrow> kf_ctx" where
  "kf_expand_passphrase_ctx key ctx =
     \<lparr> sbox = map (\<lambda>i. kf_init_sbox (sbox ctx ! i) (key ! i)) [0..<SBOX_COUNT],
       pbox = kf_init_pbox (pbox ctx) (key ! SBOX_COUNT),
       skey = map (\<lambda>i. [key ! (SBOX_COUNT + 1 + 2 * i), key ! (SBOX_COUNT + 1 + 2 * i + 1)])
                [0..<ROUNDS],
       wkey = map (\<lambda>i. [key ! (SBOX_COUNT + 1 + 2 * ROUNDS + 4 * i),
                          key ! (SBOX_COUNT + 1 + 2 * ROUNDS + 4 * i + 1),
                          key ! (SBOX_COUNT + 1 + 2 * ROUNDS + 4 * i + 2),
                          key ! (SBOX_COUNT + 1 + 2 * ROUNDS + 4 * i + 3)])
                [0..<WKEY_COUNT] \<rparr>"

definition kf_expand_passphrase :: "u8 list \<Rightarrow> kf_ctx \<Rightarrow> kf_error + kf_ctx" where
  "kf_expand_passphrase passphrase ctx =
     (case kf_expand_passphrase_key passphrase of
        Inl e \<Rightarrow> Inl e
      | Inr key \<Rightarrow> Inr (kf_expand_passphrase_ctx key ctx))"

text \<open>A context of the declared shape, for a local \<^verbatim>\<open>kf_ctx\<close> that is declared and then
  handed to \<^verbatim>\<open>kf_expand_passphrase\<close> or \<^verbatim>\<open>kf_invert_ctx\<close>, which write every cell of it.\<close>

definition kf_ctx_decl :: kf_ctx where
  "kf_ctx_decl =
     \<lparr> sbox = replicate SBOX_COUNT (replicate SBOX_SIZE 0),
       pbox = replicate PBOX_SIZE 0,
       skey = replicate ROUNDS (replicate 2 0),
       wkey = replicate WKEY_COUNT (replicate 4 0) \<rparr>"

section \<open>Words and bytes\<close>

text \<open>
  The source reads and writes the same storage as 32-bit words and as bytes (the casts
  to \<^verbatim>\<open>uint8_t *\<close>, \<^verbatim>\<open>memcpy\<close>, \<^verbatim>\<open>fread\<close>, \<^verbatim>\<open>fwrite\<close>), in the byte order of the host.
  The byte order is a parameter of the model.
\<close>

datatype byte_order = LittleEndian | BigEndian

definition bytes_of_u32 :: "byte_order \<Rightarrow> u32 \<Rightarrow> u8 list" where
  "bytes_of_u32 bo w =
     (let le = [ucast w, ucast (drop_bit 8 w), ucast (drop_bit 16 w), ucast (drop_bit 24 w)]
      in case bo of LittleEndian \<Rightarrow> le | BigEndian \<Rightarrow> rev le)"

definition u32_of_bytes :: "byte_order \<Rightarrow> u8 list \<Rightarrow> u32" where
  "u32_of_bytes bo bs =
     (let le = (case bo of LittleEndian \<Rightarrow> bs | BigEndian \<Rightarrow> rev bs)
      in ucast (le ! 0) OR push_bit 8 (ucast (le ! 1)) OR push_bit 16 (ucast (le ! 2))
         OR push_bit 24 (ucast (le ! 3)))"

definition bytes_of_words :: "byte_order \<Rightarrow> u32 list \<Rightarrow> u8 list" where
  "bytes_of_words bo ws = concat (map (bytes_of_u32 bo) ws)"

fun words_of_bytes :: "byte_order \<Rightarrow> u8 list \<Rightarrow> u32 list" where
  "words_of_bytes bo (a # b # c # d # bs) = u32_of_bytes bo [a, b, c, d] # words_of_bytes bo bs"
| "words_of_bytes bo _ = []"

text \<open>\<^verbatim>\<open>memcpy(dst_mem + dst, src_mem + src, n * sizeof(uint32_t))\<close> on word arrays; the
  source cells are read from the store as it is when the call is made.\<close>

definition memcpy_words :: "'a list \<Rightarrow> nat \<Rightarrow> 'a list \<Rightarrow> nat \<Rightarrow> nat \<Rightarrow> 'a list" where
  "memcpy_words dst_mem dst src_mem src n =
     take dst dst_mem @ take n (drop src src_mem) @ drop (dst + n) dst_mem"

text \<open>The four statements \<^verbatim>\<open>x[k] ^= y[k]\<close> for \<open>k = 0, 1, 2, 3\<close>.\<close>

definition xor4 :: "u32 list \<Rightarrow> u32 list \<Rightarrow> u32 list" where
  "xor4 x y =
     (let x0 = x[0 := x ! 0 XOR y ! 0];
          x1 = x0[1 := x0 ! 1 XOR y ! 1];
          x2 = x1[2 := x1 ! 2 XOR y ! 2];
          x3 = x2[3 := x2 ! 3 XOR y ! 3]
      in x3)"

section \<open>Context inversion\<close>

text \<open>
  \<^verbatim>\<open>kf_invert_ctx\<close>: \<^verbatim>\<open>memcpy\<close> first makes \<open>*inv\<close> a copy of \<open>*key\<close>, so the previous
  content of \<open>*inv\<close> plays no part and the model returns the new content. The first loop
  assigns both cells of every row of \<^verbatim>\<open>inv->skey\<close>, the second every cell of the two rows
  of \<^verbatim>\<open>inv->wkey\<close>, each from the unchanged \<open>*key\<close>.
\<close>

definition kf_invert_ctx :: "kf_ctx \<Rightarrow> kf_ctx" where
  "kf_invert_ctx key =
     key \<lparr> skey := map (\<lambda>i. [skey key ! (ROUNDS - i - 1) ! 0, skey key ! (ROUNDS - i - 1) ! 1])
                      [0..<ROUNDS],
           wkey := [map (\<lambda>i. wkey key ! 1 ! i) [0..<4], map (\<lambda>i. wkey key ! 0 ! i) [0..<4]] \<rparr>"

section \<open>The round function, the Feistel round and the block function\<close>

text \<open>
  The loop of \<^verbatim>\<open>kf_f\<close>, \<^verbatim>\<open>out8[ctx->pbox[i]] = ctx->sbox[i][in8[i]]\<close>. The only caller
  passes an array that was declared and never written, so the bytes of \<open>out\<close> are
  optional values, \<open>None\<close> for a byte not yet written. A write beyond the bytes of \<open>out\<close>
  is the error \<open>OutOfBounds\<close>.
\<close>

function kf_f_loop ::
  "u8 list \<Rightarrow> nat \<Rightarrow> kf_ctx \<Rightarrow> u8 option list \<Rightarrow> kf_error + u8 option list" where
  "kf_f_loop in8 i ctx out8 =
     (if i < SBOX_COUNT then
        (if unat (pbox ctx ! i) < length out8 then
           kf_f_loop in8 (i + 1) ctx
             (out8[unat (pbox ctx ! i) := Some (sbox ctx ! i ! unat (in8 ! i))])
         else Inl OutOfBounds)
      else Inr out8)"
  by pat_completeness auto
termination
  by (relation "measure (\<lambda>(in8, i, ctx, out8). SBOX_COUNT - i)") auto

declare kf_f_loop.simps [simp del]

text \<open>
  \<^verbatim>\<open>kf_f\<close>: \<open>inp\<close> holds the two words \<open>in[0]\<close> and \<open>in[1]\<close>, \<open>out8\<close> the bytes of the two
  words of \<open>out\<close>. After the loop \<^verbatim>\<open>kf_pht\<close> reads both words of \<open>out\<close>: a byte that was
  never written is the error \<open>Uninitialised\<close>. The context is passed by a pointer that is
  not \<^verbatim>\<open>const\<close>; the model returns it with the result.
\<close>

definition kf_f ::
  "byte_order \<Rightarrow> u32 list \<Rightarrow> u8 option list \<Rightarrow> nat \<Rightarrow> kf_ctx \<Rightarrow> kf_error + (u32 list \<times> kf_ctx)" where
  "kf_f bo inp out8 round ctx =
     (case kf_f_loop (bytes_of_words bo inp) 0 ctx out8 of
        Inl e \<Rightarrow> Inl e
      | Inr out8' \<Rightarrow>
          (if list_all (\<lambda>b. b \<noteq> None) out8' then
             (let out = words_of_bytes bo (map the out8');
                  out1 = kf_pht out 0 1 0 1;
                  out2 = out1[0 := out1 ! 0 XOR skey ctx ! round ! 0];
                  out3 = out2[1 := out2 ! 1 XOR skey ctx ! round ! 1]
              in Inr (out3, ctx))
           else Inl Uninitialised))"

text \<open>
  \<^verbatim>\<open>kf_round\<close>: \<open>mem\<close> is the word store that \<open>in\<close> and \<open>out\<close> point into, at the indices
  \<open>inp\<close> and \<open>outp\<close>; the block function passes the same pointer for both. \<open>tmp\<close> is the
  local array, declared and not initialised. The statements follow the source in their
  order, each \<^verbatim>\<open>memcpy\<close> reading the store as the one before left it.
\<close>

definition kf_round ::
  "byte_order \<Rightarrow> u32 list \<Rightarrow> nat \<Rightarrow> nat \<Rightarrow> nat \<Rightarrow> kf_ctx \<Rightarrow> kf_error + (u32 list \<times> kf_ctx)" where
  "kf_round bo mem inp outp round ctx =
     (case kf_f bo [mem ! (inp + 2), mem ! (inp + 3)] (replicate 8 None) round ctx of
        Inl e \<Rightarrow> Inl e
      | Inr (tmp, ctx') \<Rightarrow>
          (let tmp1 = tmp[0 := tmp ! 0 XOR mem ! inp];
               tmp2 = tmp1[1 := tmp1 ! 1 XOR mem ! (inp + 1)]
           in if round \<noteq> ROUNDS - 1 then
                (let mem1 = memcpy_words mem outp mem (inp + 2) 2;
                     mem2 = memcpy_words mem1 (outp + 2) tmp2 0 2
                 in Inr (mem2, ctx'))
              else
                (let mem1 = memcpy_words mem outp tmp2 0 2;
                     mem2 = memcpy_words mem1 (outp + 2) mem1 (inp + 2) 2
                 in Inr (mem2, ctx'))))"

text \<open>The loop of \<^verbatim>\<open>kf_block\<close>, \<^verbatim>\<open>kf_round(out, out, i, ctx)\<close> for \<open>i\<close> below \<open>ROUNDS\<close>.\<close>

function kf_block_loop ::
  "byte_order \<Rightarrow> nat \<Rightarrow> u32 list \<Rightarrow> kf_ctx \<Rightarrow> kf_error + (u32 list \<times> kf_ctx)" where
  "kf_block_loop bo i out ctx =
     (if i < ROUNDS then
        (case kf_round bo out 0 0 i ctx of
           Inl e \<Rightarrow> Inl e
         | Inr (out', ctx') \<Rightarrow> kf_block_loop bo (i + 1) out' ctx')
      else Inr (out, ctx))"
  by pat_completeness auto
termination
  by (relation "measure (\<lambda>(bo, i, out, ctx). ROUNDS - i)") auto

declare kf_block_loop.simps [simp del]

text \<open>
  \<^verbatim>\<open>kf_block\<close>: \<^verbatim>\<open>memcpy\<close> overwrites the four words of \<open>out\<close> with those of \<open>in\<close>, so the
  model takes \<open>in\<close> and returns the new \<open>out\<close>, with the context.
\<close>

definition kf_block :: "byte_order \<Rightarrow> u32 list \<Rightarrow> kf_ctx \<Rightarrow> kf_error + (u32 list \<times> kf_ctx)" where
  "kf_block bo inp ctx =
     (let out = take 4 inp;
          out1 = xor4 out (wkey ctx ! 0)
      in case kf_block_loop bo 0 out1 ctx of
           Inl e \<Rightarrow> Inl e
         | Inr (out2, ctx') \<Rightarrow> Inr (xor4 out2 (wkey ctx' ! 1), ctx'))"

section \<open>The file transform in cipher-block-chaining mode\<close>

text \<open>
  A file is the list of its bytes, and a stream is a file with a position. The functions
  take the content of the input file and return the content of the output file; failures
  of the file system are outside the model. A read of a whole block,
  \<^verbatim>\<open>fread(block, sizeof(uint32_t), 4, in)\<close>, is \<open>take BLOCK_SIZE (drop pos infile)\<close>: the
  loops below ask for a whole block only where the file holds one. Sizes and counters are
  natural numbers and integers, within the range of C's \<^verbatim>\<open>long\<close> and \<^verbatim>\<open>int\<close>.
\<close>

text \<open>The loop of \<^verbatim>\<open>kf_encrypt_file_cbc\<close> over the blocks of the input.\<close>

function kf_encrypt_loop ::
  "byte_order \<Rightarrow> u8 list \<Rightarrow> u8 list \<Rightarrow> nat \<Rightarrow> nat \<Rightarrow> nat \<Rightarrow> nat \<Rightarrow> u32 list \<Rightarrow> u8 list \<Rightarrow> kf_ctx
    \<Rightarrow> kf_error + (u32 list \<times> u8 list \<times> kf_ctx)" where
  "kf_encrypt_loop bo infile padding remaining block_count i pos key out ctx =
     (if i < block_count then
        (case (if i = block_count - 1 \<and> remaining \<noteq> 0 then
                 (if length padding < BLOCK_SIZE then Inl OutOfBounds
                  else
                    (let block0 = take BLOCK_SIZE padding;
                         got = take remaining (drop pos infile);
                         block1 = got @ drop (length got) block0;
                         block2 = block1[BLOCK_SIZE - 1 := word_of_nat remaining]
                     in Inr (block2, pos + length got)))
               else Inr (take BLOCK_SIZE (drop pos infile), pos + BLOCK_SIZE)) of
           Inl e \<Rightarrow> Inl e
         | Inr (block8, pos') \<Rightarrow>
             (case kf_block bo (xor4 (words_of_bytes bo block8) key) ctx of
                Inl e \<Rightarrow> Inl e
              | Inr (tmp, ctx') \<Rightarrow>
                  kf_encrypt_loop bo infile padding remaining block_count (i + 1) pos' tmp
                    (out @ bytes_of_words bo tmp) ctx'))
      else Inr (key, out, ctx))"
  by pat_completeness auto
termination
  by (relation "measure (\<lambda>(bo, infile, padding, remaining, block_count, i, pos, key, out, ctx).
        block_count - i)") auto

declare kf_encrypt_loop.simps [simp del]

text \<open>
  \<^verbatim>\<open>kf_encrypt_file_cbc\<close>. The local context is declared and filled by
  \<^verbatim>\<open>kf_expand_passphrase\<close>. \<^verbatim>\<open>fwrite\<close> and \<^verbatim>\<open>memcpy\<close> read 16 bytes at \<open>iv\<close>, and the
  partial last block reads 16 bytes at \<open>padding\<close>.
\<close>

definition kf_encrypt_file_cbc ::
  "byte_order \<Rightarrow> u8 list \<Rightarrow> u8 list \<Rightarrow> u8 list \<Rightarrow> u8 list \<Rightarrow> kf_error + u8 list" where
  "kf_encrypt_file_cbc bo infile passphrase iv padding =
     (case kf_expand_passphrase passphrase kf_ctx_decl of
        Inl e \<Rightarrow> Inl e
      | Inr ctx \<Rightarrow>
          (if length iv < BLOCK_SIZE then Inl OutOfBounds
           else
             (let out = take BLOCK_SIZE iv;
                  input_size = length infile;
                  remaining = input_size mod BLOCK_SIZE;
                  block_count = input_size div BLOCK_SIZE + (if remaining > 0 then 1 else 0);
                  key = words_of_bytes bo (take BLOCK_SIZE iv)
              in case kf_encrypt_loop bo infile padding remaining block_count 0 0 key out ctx of
                   Inl e \<Rightarrow> Inl e
                 | Inr (key', out', ctx') \<Rightarrow>
                     (if remaining = 0 then
                        (case kf_block bo (xor4 [0, 0, 0, 0] key') ctx' of
                           Inl e \<Rightarrow> Inl e
                         | Inr (tmp, ctx'') \<Rightarrow> Inr (out' @ bytes_of_words bo tmp))
                      else Inr out'))))"

text \<open>
  The loop of \<^verbatim>\<open>kf_decrypt_file_cbc\<close>. \<open>block_count\<close> is a \<^verbatim>\<open>long\<close> and is \<open>-1\<close> for an
  input shorter than a block. On the last block \<^verbatim>\<open>fwrite\<close> is asked for as many bytes of
  \<open>tmp\<close> as the last byte of \<open>tmp\<close> says; \<open>tmp\<close> has 16 bytes, and a read beyond them is
  the error \<open>OutOfBounds\<close>.
\<close>

function kf_decrypt_loop ::
  "byte_order \<Rightarrow> u8 list \<Rightarrow> int \<Rightarrow> nat \<Rightarrow> nat \<Rightarrow> u32 list \<Rightarrow> u8 list \<Rightarrow> kf_ctx
    \<Rightarrow> kf_error + u8 list" where
  "kf_decrypt_loop bo infile block_count i pos key out inv_ctx =
     (if int i < block_count then
        (let block = words_of_bytes bo (take BLOCK_SIZE (drop pos infile))
         in case kf_block bo block inv_ctx of
              Inl e \<Rightarrow> Inl e
            | Inr (tmp0, inv_ctx') \<Rightarrow>
                (let tmp = xor4 tmp0 key
                 in if int i \<noteq> block_count - 1 then
                      kf_decrypt_loop bo infile block_count (i + 1) (pos + BLOCK_SIZE) block
                        (out @ bytes_of_words bo tmp) inv_ctx'
                    else
                      (let remaining = unat (bytes_of_words bo tmp ! (BLOCK_SIZE - 1))
                       in if remaining > BLOCK_SIZE then Inl OutOfBounds
                          else
                            kf_decrypt_loop bo infile block_count (i + 1) (pos + BLOCK_SIZE)
                              block (out @ take remaining (bytes_of_words bo tmp)) inv_ctx')))
      else Inr out)"
  by pat_completeness auto
termination
  by (relation "measure (\<lambda>(bo, infile, block_count, i, pos, key, out, inv_ctx).
        nat (block_count - int i))") auto

declare kf_decrypt_loop.simps [simp del]

text \<open>
  \<^verbatim>\<open>kf_decrypt_file_cbc\<close>. The first \<^verbatim>\<open>fread\<close> fills \<open>key\<close> with the first block of the
  input; the loop reads \<open>key\<close> only when the input holds that block and one more.
\<close>

definition kf_decrypt_file_cbc :: "byte_order \<Rightarrow> u8 list \<Rightarrow> u8 list \<Rightarrow> kf_error + u8 list" where
  "kf_decrypt_file_cbc bo infile passphrase =
     (case kf_expand_passphrase passphrase kf_ctx_decl of
        Inl e \<Rightarrow> Inl e
      | Inr ctx \<Rightarrow>
          (let inv_ctx = kf_invert_ctx ctx;
               input_size = length infile;
               key = words_of_bytes bo (take BLOCK_SIZE infile);
               pos = min BLOCK_SIZE input_size;
               block_count = int input_size div int BLOCK_SIZE - 1
           in kf_decrypt_loop bo infile block_count 0 pos key [] inv_ctx))"

section \<open>Vocabulary of the properties\<close>

text \<open>The permutation box of a context is a permutation of \<open>[0, PBOX_SIZE)\<close>, the
  invariant that \<^verbatim>\<open>kf_init_pbox\<close> establishes.\<close>

definition kf_pbox_ok :: "kf_ctx \<Rightarrow> bool" where
  "kf_pbox_ok ctx = (mset (map unat (pbox ctx)) = mset [0..<PBOX_SIZE])"

text \<open>The two words that \<^verbatim>\<open>kf_f\<close> leaves in the array \<open>tmp\<close> of \<^verbatim>\<open>kf_round\<close>.\<close>

definition kf_f_val :: "byte_order \<Rightarrow> kf_ctx \<Rightarrow> nat \<Rightarrow> u32 list \<Rightarrow> u32 list" where
  "kf_f_val bo ctx round inp =
     (case kf_f bo inp (replicate 8 None) round ctx of Inr (out, ctx') \<Rightarrow> out | Inl e \<Rightarrow> [])"

text \<open>One Feistel step on a block of four words, for a round function \<open>F\<close> on two words:
  the right half moves to the left and the left half takes \<open>F\<close> of the right half by XOR.
  \<open>swap_halves\<close> exchanges the two halves.\<close>

definition feistel_step :: "(u32 list \<Rightarrow> u32 list) \<Rightarrow> u32 list \<Rightarrow> u32 list" where
  "feistel_step F m =
     [m ! 2, m ! 3, F [m ! 2, m ! 3] ! 0 XOR m ! 0, F [m ! 2, m ! 3] ! 1 XOR m ! 1]"

definition swap_halves :: "u32 list \<Rightarrow> u32 list" where
  "swap_halves m = [m ! 2, m ! 3, m ! 0, m ! 1]"

text \<open>The block that \<^verbatim>\<open>kf_block\<close> leaves in \<open>out\<close>.\<close>

definition kf_block_val :: "byte_order \<Rightarrow> kf_ctx \<Rightarrow> u32 list \<Rightarrow> u32 list" where
  "kf_block_val bo ctx x =
     (case kf_block bo x ctx of Inr (out, ctx') \<Rightarrow> out | Inl e \<Rightarrow> [])"

text \<open>The bytes of \<open>tmp\<close> in iteration \<open>j\<close> of the loop of \<^verbatim>\<open>kf_decrypt_file_cbc\<close>: block
  \<open>j + 1\<close> of the input, deciphered and XORed with block \<open>j\<close> of the input (block 0 being
  the initialization vector).\<close>

definition kf_recovered_block :: "byte_order \<Rightarrow> kf_ctx \<Rightarrow> u8 list \<Rightarrow> nat \<Rightarrow> u8 list" where
  "kf_recovered_block bo inv_ctx infile j =
     bytes_of_words bo
       (xor4 (kf_block_val bo inv_ctx
                (words_of_bytes bo (take BLOCK_SIZE (drop (BLOCK_SIZE * (j + 1)) infile))))
             (words_of_bytes bo (take BLOCK_SIZE (drop (BLOCK_SIZE * j) infile))))"

text \<open>The bytes of \<open>block\<close> number \<open>j\<close> that \<^verbatim>\<open>kf_encrypt_file_cbc\<close> enciphers: a whole block
  of the input; or the partial last block, completed from \<open>padding\<close> and closed by the
  count of its input bytes; or, for an input of whole blocks, the block of zeros that is
  enciphered after the loop.\<close>

definition kf_plain_block :: "u8 list \<Rightarrow> u8 list \<Rightarrow> nat \<Rightarrow> u8 list" where
  "kf_plain_block infile padding j =
     (if j < length infile div BLOCK_SIZE then take BLOCK_SIZE (drop (BLOCK_SIZE * j) infile)
      else if length infile mod BLOCK_SIZE \<noteq> 0 then
        (drop (BLOCK_SIZE * j) infile
           @ drop (length infile mod BLOCK_SIZE) (take BLOCK_SIZE padding))
        [BLOCK_SIZE - 1 := word_of_nat (length infile mod BLOCK_SIZE)]
      else replicate BLOCK_SIZE 0)"

text \<open>Cipher-block chaining of a list of blocks of bytes: each block is XORed with the
  chaining value and enciphered, and the result is the next chaining value.\<close>

fun kf_cbc_chain :: "byte_order \<Rightarrow> kf_ctx \<Rightarrow> u32 list \<Rightarrow> u8 list list \<Rightarrow> u32 list list" where
  "kf_cbc_chain bo ctx key [] = []"
| "kf_cbc_chain bo ctx key (b # bs) =
     kf_block_val bo ctx (xor4 (words_of_bytes bo b) key)
       # kf_cbc_chain bo ctx (kf_block_val bo ctx (xor4 (words_of_bytes bo b) key)) bs"

text \<open>The context that the key schedule derives from the passphrase \<open>test\<close>, as
  \<open>kf_expand_passphrase_test\<close> below shows: a passphrase of exactly four bytes leaves the
  accumulator at zero, and the zero seed yields identity boxes.\<close>

definition kf_ctx_test :: kf_ctx where
  "kf_ctx_test =
     \<lparr> sbox = replicate 8 (map word_of_nat [0..<256]),
       pbox = map word_of_nat [0..<8],
       skey = replicate 16 [0, 0],
       wkey = replicate 2 [0, 0, 0, 0] \<rparr>"

section \<open>Properties of the pseudo-Hadamard transform\<close>

lemma pht_mod_id: "unat (y :: u32) mod PHT_MAX = unat y"
proof -
  have "unat y < 2 ^ 32"
    using unsigned_less [of y] by simp
  then show ?thesis
    by (simp add: PHT_MAX_def)
qed

lemma kf_pht_separate: "kf_pht [a, b, x, y] 0 1 2 3 = [a, b, a + b, a + 2 * b]"
  by (simp add: kf_pht_def Let_def pht_mod_id)

lemma kf_pht_in_place: "kf_pht [a, b] 0 1 0 1 = [a + b, a + 2 * b]"
  by (simp add: kf_pht_def Let_def pht_mod_id)

text \<open>
  C9. For all 32-bit words \<open>a\<close> and \<open>b\<close>, \<^verbatim>\<open>kf_pht\<close> stores \<open>(a + b) mod 2^32\<close> in
  \<open>*a_prime\<close> and \<open>(a + 2 b) mod 2^32\<close> in \<open>*b_prime\<close>, whether the outputs are cells of
  their own or the input cells themselves, and the inputs are recovered as
  \<open>b = b' - a'\<close> and \<open>a = 2 a' - b'\<close> modulo \<open>2^32\<close>.
\<close>

theorem kf_pht_values_and_inverse:
  "kf_pht [a, b, x, y] 0 1 2 3 ! 2 = a + b
   \<and> kf_pht [a, b, x, y] 0 1 2 3 ! 3 = a + 2 * b
   \<and> kf_pht [a, b] 0 1 0 1 = [a + b, a + 2 * b]
   \<and> unat (kf_pht [a, b] 0 1 0 1 ! 0) = (unat a + unat b) mod 2 ^ 32
   \<and> unat (kf_pht [a, b] 0 1 0 1 ! 1) = (unat a + 2 * unat b) mod 2 ^ 32
   \<and> kf_pht [a, b] 0 1 0 1 ! 1 - kf_pht [a, b] 0 1 0 1 ! 0 = b
   \<and> 2 * kf_pht [a, b] 0 1 0 1 ! 0 - kf_pht [a, b] 0 1 0 1 ! 1 = a"
proof -
  have u1: "unat (a + b) = (unat a + unat b) mod 2 ^ 32"
    by (simp add: unat_word_ariths)
  have "unat (a + 2 * b) = (unat a + (2 * unat b) mod 2 ^ 32) mod 2 ^ 32"
    by (simp add: unat_word_ariths)
  then have u2: "unat (a + 2 * b) = (unat a + 2 * unat b) mod 2 ^ 32"
    by (simp add: mod_add_right_eq)
  show ?thesis
    unfolding kf_pht_separate kf_pht_in_place using u1 u2 by simp
qed

section \<open>The box generator yields permutations\<close>

lemma take_remove_mset:
  assumes "k < m" "m \<le> length xs"
  shows "mset (take m xs) = add_mset (xs ! k) (mset (take (m - 1) (take k xs @ drop (Suc k) xs)))"
proof -
  have k: "k < length xs" using assms by simp
  have "take m xs = take m (take k xs @ xs ! k # drop (Suc k) xs)"
    using id_take_nth_drop [OF k] by simp
  also have "\<dots> = take k xs @ xs ! k # take (m - Suc k) (drop (Suc k) xs)"
    using assms k by (simp add: take_Cons' min_def)
  finally have a: "take m xs = take k xs @ xs ! k # take (m - Suc k) (drop (Suc k) xs)" .
  have b: "take (m - 1) (take k xs @ drop (Suc k) xs) = take k xs @ take (m - Suc k) (drop (Suc k) xs)"
    using assms k by (simp add: min_absorb2)
  show ?thesis
    by (subst a, subst b) simp
qed

lemma memmove_pool:
  assumes "length idx = n" "index < n - i" "i < n"
  shows "length (memmove_list idx index (index + 1) (n - index - 1)) = n"
    and "take (n - (i + 1)) (memmove_list idx index (index + 1) (n - index - 1)) =
         take (n - i - 1) (take index idx @ drop (Suc index) idx)"
  using assms by (auto simp: memmove_list_def min_def)

lemma kf_init_box_loop_inv:
  "i \<le> n \<Longrightarrow> length s = n \<Longrightarrow> length idx = n \<Longrightarrow>
   length (kf_init_box_loop n i s idx sr) = n \<and>
   mset (kf_init_box_loop n i s idx sr) = mset (take i s) + mset (take (n - i) idx)"
proof (induction n i s idx sr rule: kf_init_box_loop.induct)
  case (1 sz i s indexes seed_copy)
  show ?case
  proof (cases "i < sz")
    case False
    with 1(2,3) show ?thesis
      by (subst kf_init_box_loop.simps, subst kf_init_box_loop.simps) simp
  next
    case True
    obtain byte sc where lb: "kf_lfsr_byte seed_copy = (byte, sc)"
      by (cases "kf_lfsr_byte seed_copy")
    define index where "index = unat byte mod (sz - i)"
    define s' where "s' = s[i := indexes ! index]"
    define indexes' where "indexes' = memmove_list indexes index (index + 1) (sz - index - 1)"
    have idx: "index < sz - i"
      using True by (simp add: index_def)
    have unf: "kf_init_box_loop sz i s indexes seed_copy = kf_init_box_loop sz (i + 1) s' indexes' sc"
      using True lb by (simp add: kf_init_box_loop.simps [of sz i] index_def s'_def indexes'_def Let_def)
    have len: "length indexes' = sz"
      and pool: "take (sz - (i + 1)) indexes' = take (sz - i - 1) (take index indexes @ drop (Suc index) indexes)"
      unfolding indexes'_def using memmove_pool [OF 1(4) idx True] by auto
    have IH: "length (kf_init_box_loop sz (i + 1) s' indexes' sc) = sz \<and>
        mset (kf_init_box_loop sz (i + 1) s' indexes' sc) =
        mset (take (i + 1) s') + mset (take (sz - (i + 1)) indexes')"
      using "1.IH" [OF True lb [symmetric] index_def s'_def indexes'_def] True 1(3) len
      by (simp add: s'_def)
    have ts: "take (i + 1) s' = take i s @ [indexes ! index]"
      using True 1(3) by (simp add: s'_def take_Suc_conv_app_nth)
    have "mset (take (sz - i) indexes) =
        add_mset (indexes ! index) (mset (take (sz - i - 1) (take index indexes @ drop (Suc index) indexes)))"
      using take_remove_mset [of index "sz - i" indexes] idx 1(4) by simp
    with IH ts pool unf show ?thesis
      by simp
  qed
qed


lemma unat_pool: "n \<le> 256 \<Longrightarrow> map unat (map word_of_nat [0..<n] :: u8 list) = [0..<n]"
  by (rule map_idI [THEN trans [OF map_map]]) (simp add: unat_of_nat)

lemma kf_init_box_loop_perm:
  assumes "length s = n" "n \<le> 256"
  shows "mset (map unat (kf_init_box_loop n 0 s (map word_of_nat [0..<n]) seed)) = mset [0..<n]"
proof -
  have "mset (kf_init_box_loop n 0 s (map word_of_nat [0..<n]) seed) = mset (map word_of_nat [0..<n] :: u8 list)"
    using kf_init_box_loop_inv [of 0 n s "map word_of_nat [0..<n]" seed] assms by simp
  then have "mset (map unat (kf_init_box_loop n 0 s (map word_of_nat [0..<n]) seed))
      = mset (map unat (map word_of_nat [0..<n] :: u8 list))"
    by (metis mset_map)
  then show ?thesis
    by (simp only: unat_pool [OF assms(2)])
qed

lemma perm_upt_unique:
  assumes "mset xs = mset [0..<n]" "v < n"
  shows "\<exists>!i. i < n \<and> xs ! i = v"
proof -
  have len: "length xs = n"
    using mset_eq_length [OF assms(1)] by simp
  have d: "distinct xs"
    using mset_eq_imp_distinct_iff [OF assms(1)] by simp
  have "set xs = {0..<n}"
    using mset_eq_setD [OF assms(1)] by simp
  then have "v \<in> set xs"
    using assms(2) by simp
  then obtain i where "i < n" "xs ! i = v"
    using len by (auto simp: in_set_conv_nth)
  then show ?thesis
    using d len by (auto simp: nth_eq_iff_index_eq)
qed

lemma kf_init_sbox_perm:
  "length s = SBOX_SIZE \<Longrightarrow> mset (map unat (kf_init_sbox s seed)) = mset [0..<SBOX_SIZE]"
  unfolding kf_init_sbox_def by (rule kf_init_box_loop_perm) (simp_all add: SBOX_SIZE_def)

lemma kf_init_pbox_perm:
  "length p = PBOX_SIZE \<Longrightarrow> mset (map unat (kf_init_pbox p seed)) = mset [0..<PBOX_SIZE]"
  unfolding kf_init_pbox_def by (rule kf_init_box_loop_perm) (simp_all add: PBOX_SIZE_def)

lemma perm_box_positions:
  assumes "mset (map unat b) = mset [0..<n]"
  shows "length b = n \<and> (\<forall>v<n. \<exists>!i. i < n \<and> unat (b ! i) = v)"
proof -
  have len: "length b = n"
    using mset_eq_length [OF assms] by simp
  have "\<exists>!i. i < n \<and> unat (b ! i) = v" if "v < n" for v
  proof -
    have "\<exists>!i. i < n \<and> map unat b ! i = v"
      using perm_upt_unique [OF assms that] .
    then show ?thesis
      using len by (metis nth_map)
  qed
  then show ?thesis
    using len by simp
qed

text \<open>
  C3. For every 32-bit seed, \<^verbatim>\<open>kf_init_sbox\<close> fills its array with a bijection over
  \<open>[0, 256)\<close> and \<^verbatim>\<open>kf_init_pbox\<close> with a bijection over \<open>[0, PBOX_SIZE)\<close>: each value of
  the range stands at exactly one position of the table. The arrays are the caller's, of
  the declared sizes, and their previous content is arbitrary.
\<close>

theorem kf_init_boxes_bijective:
  assumes "length s = SBOX_SIZE" and "length p = PBOX_SIZE"
  shows "length (kf_init_sbox s seed) = SBOX_SIZE
      \<and> (\<forall>v<SBOX_SIZE. \<exists>!i. i < SBOX_SIZE \<and> unat (kf_init_sbox s seed ! i) = v)
      \<and> length (kf_init_pbox p seed) = PBOX_SIZE
      \<and> (\<forall>v<PBOX_SIZE. \<exists>!i. i < PBOX_SIZE \<and> unat (kf_init_pbox p seed ! i) = v)"
  using perm_box_positions [OF kf_init_sbox_perm [OF assms(1)]]
    perm_box_positions [OF kf_init_pbox_perm [OF assms(2)]]
  by simp

theorem kf_init_boxes_bijective_witness:
  "length (kf_init_sbox (replicate 256 0) 0xDEADBEEF) = 256
   \<and> (\<exists>!i. i < 256 \<and> unat (kf_init_sbox (replicate 256 0) 0xDEADBEEF ! i) = 200)
   \<and> length (kf_init_pbox (replicate 8 0) 0xDEADBEEF) = 8
   \<and> (\<exists>!i. i < 8 \<and> unat (kf_init_pbox (replicate 8 0) 0xDEADBEEF ! i) = 5)"
  using kf_init_boxes_bijective [of "replicate 256 0" "replicate 8 0" "0xDEADBEEF"]
  by (simp add: SBOX_SIZE_def PBOX_SIZE_def)

section \<open>The key schedule on short and on whole-chunk passphrases\<close>

lemma ucast_shifted_low_byte: "8 \<le> n \<Longrightarrow> (ucast (push_bit n (w :: u32)) :: u8) = 0"
  by (rule bit_word_eqI) (simp add: bit_simps)

lemma kf_load_register_eq: "kf_load_register c0 c1 c2 c3 = ucast c0"
  by (simp add: kf_load_register_def ucast_shifted_low_byte)

lemma kf_chunk_loop_done:
  "\<not> i < bound \<Longrightarrow> kf_chunk_loop mem bound i key sr = Inr (key, sr)"
  by (simp add: kf_chunk_loop.simps)

lemma kf_chunk_loop_step:
  "i < bound \<Longrightarrow> i + 3 < length mem \<Longrightarrow>
   kf_chunk_loop mem bound i key sr =
     (case kf_mix_key 0 key
             (kf_load_register (mem ! i) (mem ! (i + 1)) (mem ! (i + 2)) (mem ! (i + 3))) of
        (key', sr') \<Rightarrow> kf_chunk_loop mem bound (i + 4) key' sr')"
  by (simp add: kf_chunk_loop.simps [of mem bound i])

lemma kf_chunk_loop_out_of_bounds:
  "i < bound \<Longrightarrow> \<not> i + 3 < length mem \<Longrightarrow> kf_chunk_loop mem bound i key sr = Inl OutOfBounds"
  by (simp add: kf_chunk_loop.simps [of mem bound i])

lemma kf_last_loop_done:
  "\<not> i < passlen mod 4 \<Longrightarrow> kf_last_loop mem passlen i last_buf = Inr last_buf"
  by (simp add: kf_last_loop.simps)

lemma kf_last_loop_step:
  "i < passlen mod 4 \<Longrightarrow>
   kf_last_loop mem passlen i last_buf =
     (case read_char mem (size_t_add (size_t_sub passlen 4) i) of
        Inl e \<Rightarrow> Inl e
      | Inr c \<Rightarrow> kf_last_loop mem passlen (i + 1) (last_buf[i := c]))"
  by (simp add: kf_last_loop.simps [of mem passlen i])

text \<open>
  C5. The claim is that every chunk loads the register with the little-endian value
  \<open>byte0 | byte1<<8 | byte2<<16 | byte3<<24\<close>. The source casts each shifted character
  to \<^verbatim>\<open>uint8_t\<close> after the shift, which leaves nothing of it: the register is loaded
  with the first byte of the chunk alone, for instance with \<open>0x61\<close> and not \<open>0x64636261\<close>
  from the chunk \<open>abcd\<close>.
\<close>

theorem kf_load_register_first_byte_only:
  "kf_load_register c0 c1 c2 c3 = ucast c0
   \<and> kf_load_register 0x61 0x62 0x63 0x64 = 0x61
   \<and> kf_load_register 0x61 0x62 0x63 0x64 \<noteq> 0x64636261"
  by (simp add: kf_load_register_eq)

lemma kf_chunk_bound_3: "kf_chunk_bound 3 = 18446744073709551615"
  by (simp add: kf_chunk_bound_def size_t_sub_def SIZE_T_MOD_def)

lemma kf_expand_passphrase_key_abc:
  "kf_expand_passphrase_key [0x61, 0x62, 0x63] = Inl OutOfBounds"
proof -
  have sl: "strlen (c_string [0x61, 0x62, 0x63]) = 3"
    by (simp add: strlen_def c_string_def)
  have len: "length (c_string [0x61, 0x62, 0x63 :: u8]) = 4"
    by (simp add: c_string_def)
  have "kf_chunk_loop (c_string [0x61, 0x62, 0x63]) (kf_chunk_bound 3) 0 key sr = Inl OutOfBounds"
    for key sr
    by (simp add: kf_chunk_loop_step kf_chunk_loop_out_of_bounds kf_chunk_bound_3 len
        split: prod.splits)
  then show ?thesis
    by (simp add: kf_expand_passphrase_key_def Let_def sl)
qed

text \<open>
  C4. The claim is that a passphrase shorter than 4 bytes makes the chunk loop run zero
  times. In the source the bound \<^verbatim>\<open>passlen - 4\<close> is unsigned and wraps: for the 3-byte
  passphrase \<open>abc\<close> it is \<open>2^64 - 1\<close>, the loop body runs at \<open>i = 0\<close> and at \<open>i = 4\<close> it
  reads past the end of the string, so the key schedule yields no context.
\<close>

theorem kf_expand_passphrase_short_underflow:
  "kf_chunk_bound 3 = 2 ^ 64 - 1
   \<and> kf_expand_passphrase [0x61, 0x62, 0x63] ctx = Inl OutOfBounds"
  by (simp add: kf_expand_passphrase_def kf_expand_passphrase_key_abc kf_chunk_bound_3)

text \<open>
  C6. The claim is that the chunk loop consumes the \<open>passlen div 4\<close> leading chunks and the
  remainder step the last \<open>passlen mod 4\<close> bytes. In the source the loop stops at
  \<open>passlen - 4\<close> and the remainder is copied from index \<open>passlen - 4\<close>: of the 8 bytes
  \<open>abcdefgh\<close> only the chunk \<open>abcd\<close> is consumed and the bytes \<open>efgh\<close> are never read, and
  of the 6 bytes \<open>abcdef\<close> the remainder step takes \<open>cd\<close> instead of \<open>ef\<close>.
\<close>

theorem kf_expand_passphrase_key_skips_bytes:
  "kf_expand_passphrase_key [0x61, 0x62, 0x63, 0x64, 0x65, 0x66, 0x67, 0x68] =
     Inr (fst (kf_mix_key 0
            (fst (kf_mix_key 0 (replicate KEY_SIZE 0) (kf_load_register 0x61 0x62 0x63 0x64)))
            (kf_load_register 0 0 0 0)))
   \<and> kf_expand_passphrase_key [0x61, 0x62, 0x63, 0x64, 0x65, 0x66] =
     Inr (fst (kf_mix_key 0
            (fst (kf_mix_key 0 (replicate KEY_SIZE 0) (kf_load_register 0x61 0x62 0x63 0x64)))
            (kf_load_register 0x63 0x64 0 0)))"
proof -
  have sl8: "strlen (c_string [0x61, 0x62, 0x63, 0x64, 0x65, 0x66, 0x67, 0x68]) = 8"
    by (simp add: strlen_def c_string_def)
  have sl6: "strlen (c_string [0x61, 0x62, 0x63, 0x64, 0x65, 0x66]) = 6"
    by (simp add: strlen_def c_string_def)
  have b8: "kf_chunk_bound 8 = 4" and b6: "kf_chunk_bound 6 = 2"
    by (simp_all add: kf_chunk_bound_def size_t_sub_def SIZE_T_MOD_def)
  have i6: "size_t_add (size_t_sub 6 4) 0 = 2" "size_t_add (size_t_sub 6 4) (Suc 0) = 3"
    by (simp_all add: size_t_add_def size_t_sub_def SIZE_T_MOD_def)
  have c8: "kf_chunk_loop (c_string [0x61, 0x62, 0x63, 0x64, 0x65, 0x66, 0x67, 0x68]) 4 0 key sr =
      Inr (kf_mix_key 0 key (kf_load_register 0x61 0x62 0x63 0x64))" for key sr
    by (simp add: kf_chunk_loop_step kf_chunk_loop_done c_string_def split: prod.splits)
  have c6: "kf_chunk_loop (c_string [0x61, 0x62, 0x63, 0x64, 0x65, 0x66]) 2 0 key sr =
      Inr (kf_mix_key 0 key (kf_load_register 0x61 0x62 0x63 0x64))" for key sr
    by (simp add: kf_chunk_loop_step kf_chunk_loop_done c_string_def split: prod.splits)
  have l8: "kf_last_loop mem 8 0 [0, 0, 0, 0] = Inr [0, 0, 0, 0]" for mem
    by (simp add: kf_last_loop_done)
  have l6: "kf_last_loop (c_string [0x61, 0x62, 0x63, 0x64, 0x65, 0x66]) 6 0 [0, 0, 0, 0] =
      Inr [0x63, 0x64, 0, 0]"
    by (simp add: kf_last_loop_step kf_last_loop_done i6 read_char_def c_string_def)
  have r4: "replicate 4 (0 :: u8) = [0, 0, 0, 0]"
    by (simp add: numeral_eq_Suc)
  show ?thesis
    by (simp add: kf_expand_passphrase_key_def Let_def sl8 sl6 b8 b6 c8 c6 l8 l6 r4
        split: prod.splits)
qed

section \<open>The round function covers its output\<close>

lemma kf_pbox_ok_range:
  assumes "kf_pbox_ok ctx"
  shows "length (pbox ctx) = 8"
    and "k < 8 \<Longrightarrow> unat (pbox ctx ! k) < 8"
    and "j < 8 \<Longrightarrow> \<exists>k<8. unat (pbox ctx ! k) = j"
proof -
  have m: "mset (map unat (pbox ctx)) = mset [0..<8]"
    using assms by (simp add: kf_pbox_ok_def PBOX_SIZE_def)
  show len: "length (pbox ctx) = 8"
    using mset_eq_length [OF m] by simp
  have s: "set (map unat (pbox ctx)) = {0..<8}"
    using mset_eq_setD [OF m] by simp
  show "unat (pbox ctx ! k) < 8" if "k < 8"
  proof -
    have "map unat (pbox ctx) ! k \<in> set (map unat (pbox ctx))"
      using that len by (intro nth_mem) simp
    then have "map unat (pbox ctx) ! k \<in> {0..<8}"
      unfolding s .
    then show ?thesis
      using that len by simp
  qed
  show "\<exists>k<8. unat (pbox ctx ! k) = j" if "j < 8"
  proof -
    have "j \<in> set (map unat (pbox ctx))"
      using s that by simp
    then obtain k where "k < length (map unat (pbox ctx))" "map unat (pbox ctx) ! k = j"
      by (auto simp: in_set_conv_nth)
    then show ?thesis
      using len by auto
  qed
qed

lemma kf_f_loop_covers:
  assumes "\<forall>k<SBOX_COUNT. unat (pbox ctx ! k) < length out8"
  shows "\<exists>out8'. kf_f_loop in8 i ctx out8 = Inr out8' \<and> length out8' = length out8
     \<and> (\<forall>j<length out8.
          out8 ! j \<noteq> None \<or> (\<exists>k. i \<le> k \<and> k < SBOX_COUNT \<and> unat (pbox ctx ! k) = j)
          \<longrightarrow> out8' ! j \<noteq> None)"
  using assms
proof (induction in8 i ctx out8 rule: kf_f_loop.induct)
  case (1 in8 i ctx out8)
  show ?case
  proof (cases "i < SBOX_COUNT")
    case False
    then show ?thesis
      by (auto simp: kf_f_loop.simps [of in8 i])
  next
    case True
    define p where "p = unat (pbox ctx ! i)"
    define nx where "nx = out8[p := Some (sbox ctx ! i ! unat (in8 ! i))]"
    have p: "p < length out8"
      using True 1(2) by (simp add: p_def)
    have unf: "kf_f_loop in8 i ctx out8 = kf_f_loop in8 (i + 1) ctx nx"
      using True p by (simp add: kf_f_loop.simps [of in8 i] p_def nx_def)
    have nxr: "\<forall>k<SBOX_COUNT. unat (pbox ctx ! k) < length nx"
      using 1(2) by (simp add: nx_def)
    from "1.IH" [OF True p [unfolded p_def] nxr [unfolded nx_def p_def]] obtain o' where
      o: "kf_f_loop in8 (i + 1) ctx nx = Inr o'" "length o' = length nx"
        "\<forall>j<length nx. nx ! j \<noteq> None \<or> (\<exists>k. i + 1 \<le> k \<and> k < SBOX_COUNT \<and> unat (pbox ctx ! k) = j)
          \<longrightarrow> o' ! j \<noteq> None"
      unfolding p_def nx_def by blast
    have "o' ! j \<noteq> None"
      if j: "j < length out8"
        and h: "out8 ! j \<noteq> None \<or> (\<exists>k. i \<le> k \<and> k < SBOX_COUNT \<and> unat (pbox ctx ! k) = j)"
      for j
    proof -
      have "nx ! j \<noteq> None \<or> (\<exists>k. i + 1 \<le> k \<and> k < SBOX_COUNT \<and> unat (pbox ctx ! k) = j)"
      proof (cases "j = p")
        case True
        then show ?thesis
          using p by (simp add: nx_def)
      next
        case False
        from h show ?thesis
        proof
          assume "out8 ! j \<noteq> None"
          then show ?thesis
            using False by (simp add: nx_def)
        next
          assume "\<exists>k. i \<le> k \<and> k < SBOX_COUNT \<and> unat (pbox ctx ! k) = j"
          then obtain k where k: "i \<le> k" "k < SBOX_COUNT" "unat (pbox ctx ! k) = j"
            by blast
          with False have "k \<noteq> i"
            by (auto simp: p_def)
          with k have "i + 1 \<le> k"
            by simp
          with k show ?thesis
            by blast
        qed
      qed
      with o(3) j show ?thesis
        by (auto simp: nx_def)
    qed
    with o unf show ?thesis
      by (simp add: nx_def)
  qed
qed

lemma kf_f_loop_total:
  assumes "kf_pbox_ok ctx"
  shows "\<exists>out8'. kf_f_loop in8 0 ctx (replicate 8 None) = Inr out8' \<and> length out8' = 8
     \<and> list_all (\<lambda>b. b \<noteq> None) out8'"
proof -
  have r: "\<forall>k<SBOX_COUNT. unat (pbox ctx ! k) < length (replicate 8 (None :: u8 option))"
    using kf_pbox_ok_range(2) [OF assms] by (simp add: SBOX_COUNT_def)
  from kf_f_loop_covers [OF r, of in8 0] obtain o' where
    o: "kf_f_loop in8 0 ctx (replicate 8 None) = Inr o'" "length o' = 8"
      "\<forall>j<8. (\<exists>k. k < SBOX_COUNT \<and> unat (pbox ctx ! k) = j) \<longrightarrow> o' ! j \<noteq> None"
    by auto
  have "\<forall>j<8. o' ! j \<noteq> None"
    using o(3) kf_pbox_ok_range(3) [OF assms] by (auto simp: SBOX_COUNT_def)
  then have "list_all (\<lambda>b. b \<noteq> None) o'"
    using o(2) by (simp add: list_all_length)
  with o show ?thesis
    by blast
qed

lemma length_words_of_bytes_8: "length bs = 8 \<Longrightarrow> length (words_of_bytes bo bs) = 2"
  by (auto simp: length_Suc_conv numeral_eq_Suc)

lemma length_kf_pht [simp]: "length (kf_pht mem a b ap bp) = length mem"
  by (simp add: kf_pht_def Let_def)

lemma kf_f_total:
  assumes "kf_pbox_ok ctx"
  shows "kf_f bo inp (replicate 8 None) round ctx = Inr (kf_f_val bo ctx round inp, ctx)"
    and "length (kf_f_val bo ctx round inp) = 2"
proof -
  from kf_f_loop_total [OF assms] obtain o' where
    o: "kf_f_loop (bytes_of_words bo inp) 0 ctx (replicate 8 None) = Inr o'" "length o' = 8"
      "list_all (\<lambda>b. b \<noteq> None) o'"
    by blast
  then obtain t where t: "kf_f bo inp (replicate 8 None) round ctx = Inr (t, ctx)" "length t = 2"
    by (simp add: kf_f_def Let_def length_words_of_bytes_8)
  then show "kf_f bo inp (replicate 8 None) round ctx = Inr (kf_f_val bo ctx round inp, ctx)"
    and "length (kf_f_val bo ctx round inp) = 2"
    by (simp_all add: kf_f_val_def)
qed

section \<open>The block function as a Feistel network\<close>

lemma list4: "length m = 4 \<Longrightarrow> \<exists>a b c d. m = [a, b, c, d]"
  by (auto simp: length_Suc_conv numeral_eq_Suc)

lemma list2: "length m = 2 \<Longrightarrow> \<exists>a b. m = [a, b]"
  by (auto simp: length_Suc_conv numeral_eq_Suc)

lemma kf_round_in_place:
  assumes "kf_pbox_ok ctx" and "length m = 4"
  shows "kf_round bo m 0 0 r ctx =
     Inr (if r \<noteq> ROUNDS - 1 then feistel_step (kf_f_val bo ctx r) m
          else swap_halves (feistel_step (kf_f_val bo ctx r) m), ctx)"
proof -
  obtain a b c d where m: "m = [a, b, c, d]"
    using list4 [OF assms(2)] by blast
  obtain t0 t1 where t: "kf_f_val bo ctx r [c, d] = [t0, t1]"
    using list2 [OF kf_f_total(2) [OF assms(1)]] by blast
  have k: "kf_round bo m 0 0 r ctx =
      Inr (if r \<noteq> ROUNDS - 1 then [c, d, t0 XOR a, t1 XOR b] else [t0 XOR a, t1 XOR b, c, d], ctx)"
    by (simp add: kf_round_def kf_f_total(1) [OF assms(1)] m t Let_def memcpy_words_def)
  have fs: "feistel_step (kf_f_val bo ctx r) m = [c, d, t0 XOR a, t1 XOR b]"
    by (simp add: feistel_step_def m t)
  have sw: "swap_halves [c, d, t0 XOR a, t1 XOR b] = [t0 XOR a, t1 XOR b, c, d]"
    by (simp add: swap_halves_def)
  show ?thesis
    unfolding k fs sw ..
qed

lemma length_feistel_step [simp]: "length (feistel_step F m) = 4"
  by (simp add: feistel_step_def)

lemma length_swap_halves [simp]: "length (swap_halves m) = 4"
  by (simp add: swap_halves_def)

lemma length_fold_feistel:
  "length m = 4 \<Longrightarrow> length (fold (\<lambda>r. feistel_step (F r)) rs m) = 4"
  by (induction rs arbitrary: m) simp_all

lemma kf_block_loop_done:
  "\<not> i < ROUNDS \<Longrightarrow> kf_block_loop bo i m ctx = Inr (m, ctx)"
  by (simp add: kf_block_loop.simps)

lemma kf_block_loop_step:
  "i < ROUNDS \<Longrightarrow>
   kf_block_loop bo i m ctx =
     (case kf_round bo m 0 0 i ctx of
        Inl e \<Rightarrow> Inl e
      | Inr (out', ctx') \<Rightarrow> kf_block_loop bo (i + 1) out' ctx')"
  by (subst kf_block_loop.simps) simp

lemma kf_block_loop_fold:
  assumes "kf_pbox_ok ctx"
  shows "i < ROUNDS \<Longrightarrow> length m = 4 \<Longrightarrow>
     kf_block_loop bo i m ctx =
       Inr (swap_halves (fold (\<lambda>r. feistel_step (kf_f_val bo ctx r)) [i..<ROUNDS] m), ctx)"
proof (induction "ROUNDS - i" arbitrary: i m)
  case 0
  then show ?case by simp
next
  case (Suc n)
  have u: "[i..<ROUNDS] = i # [i + 1..<ROUNDS]"
    using Suc.prems(1) by (simp add: upt_conv_Cons)
  have st: "kf_block_loop bo i m ctx =
      kf_block_loop bo (i + 1)
        (if i \<noteq> ROUNDS - 1 then feistel_step (kf_f_val bo ctx i) m
         else swap_halves (feistel_step (kf_f_val bo ctx i) m)) ctx"
    using Suc.prems by (simp add: kf_block_loop_step kf_round_in_place [OF assms])
  show ?case
  proof (cases "i = ROUNDS - 1")
    case True
    have e: "[i + 1..<ROUNDS] = []"
      using True Suc.prems(1) by simp
    have d: "\<not> i + 1 < ROUNDS"
      using True Suc.prems(1) by simp
    have i: "(if i \<noteq> ROUNDS - 1 then feistel_step (kf_f_val bo ctx i) m
         else swap_halves (feistel_step (kf_f_val bo ctx i) m))
        = swap_halves (feistel_step (kf_f_val bo ctx i) m)"
      using True by simp
    show ?thesis
      unfolding st i kf_block_loop_done [OF d] u e by simp
  next
    case False
    then have lt: "i + 1 < ROUNDS"
      using Suc.prems(1) by simp
    have n: "n = ROUNDS - (i + 1)"
      using Suc.hyps(2) by simp
    have i: "(if i \<noteq> ROUNDS - 1 then feistel_step (kf_f_val bo ctx i) m
         else swap_halves (feistel_step (kf_f_val bo ctx i) m))
        = feistel_step (kf_f_val bo ctx i) m"
      using False by simp
    have "kf_block_loop bo (i + 1) (feistel_step (kf_f_val bo ctx i) m) ctx =
        Inr (swap_halves (fold (\<lambda>r. feistel_step (kf_f_val bo ctx r)) [i + 1..<ROUNDS]
              (feistel_step (kf_f_val bo ctx i) m)), ctx)"
      by (rule Suc.hyps(1) [OF n lt]) simp
    then show ?thesis
      unfolding st i u by simp
  qed
qed

lemma length_xor4 [simp]: "length (xor4 x y) = length x"
  by (simp add: xor4_def Let_def)

lemma kf_block_total:
  assumes "kf_pbox_ok ctx" and "4 \<le> length x"
  shows "kf_block bo x ctx = Inr (kf_block_val bo ctx x, ctx)"
    and "kf_block_val bo ctx x =
      xor4 (swap_halves (fold (\<lambda>r. feistel_step (kf_f_val bo ctx r)) [0..<ROUNDS]
              (xor4 (take 4 x) (wkey ctx ! 0)))) (wkey ctx ! 1)"
    and "length (kf_block_val bo ctx x) = 4"
proof -
  have l: "length (xor4 (take 4 x) (wkey ctx ! 0)) = 4"
    using assms(2) by simp
  have r: "0 < ROUNDS"
    by (simp add: ROUNDS_def)
  have e: "kf_block bo x ctx =
      Inr (xor4 (swap_halves (fold (\<lambda>r. feistel_step (kf_f_val bo ctx r)) [0..<ROUNDS]
              (xor4 (take 4 x) (wkey ctx ! 0)))) (wkey ctx ! 1), ctx)"
    by (simp add: kf_block_def Let_def kf_block_loop_fold [OF assms(1) r l])
  then show v: "kf_block_val bo ctx x =
      xor4 (swap_halves (fold (\<lambda>r. feistel_step (kf_f_val bo ctx r)) [0..<ROUNDS]
              (xor4 (take 4 x) (wkey ctx ! 0)))) (wkey ctx ! 1)"
    by (simp add: kf_block_val_def)
  from e v show "kf_block bo x ctx = Inr (kf_block_val bo ctx x, ctx)"
    by simp
  from v show "length (kf_block_val bo ctx x) = 4"
    by simp
qed

section \<open>Decryption of a block with the inverted context\<close>

lemma feistel_step_involution:
  "feistel_step F (swap_halves (feistel_step F m)) = swap_halves m"
  by (simp add: feistel_step_def swap_halves_def)

lemma feistel_fold_unwind:
  "fold (\<lambda>r. feistel_step (F r)) (rev rs) (swap_halves (fold (\<lambda>r. feistel_step (F r)) rs m))
     = swap_halves m"
proof (induction rs arbitrary: m)
  case Nil
  then show ?case by simp
next
  case (Cons r rs)
  have "fold (\<lambda>r. feistel_step (F r)) (rev (r # rs))
          (swap_halves (fold (\<lambda>r. feistel_step (F r)) (r # rs) m))
      = feistel_step (F r) (fold (\<lambda>r. feistel_step (F r)) (rev rs)
          (swap_halves (fold (\<lambda>r. feistel_step (F r)) rs (feistel_step (F r) m))))"
    by simp
  also have "\<dots> = feistel_step (F r) (swap_halves (feistel_step (F r) m))"
    by (simp only: Cons.IH)
  also have "\<dots> = swap_halves m"
    by (rule feistel_step_involution)
  finally show ?case .
qed

lemma swap_halves_twice: "length m = 4 \<Longrightarrow> swap_halves (swap_halves m) = m"
  using list4 [of m] by (auto simp: swap_halves_def)

lemma xor4_twice:
  assumes "length x = 4" and "\<forall>k<4. y' ! k = y ! k"
  shows "xor4 (xor4 x y) y' = x"
proof -
  obtain a b c d where x: "x = [a, b, c, d]"
    using list4 [OF assms(1)] by blast
  have "y' ! 0 = y ! 0" "y' ! 1 = y ! 1" "y' ! 2 = y ! 2" "y' ! 3 = y ! 3"
    using assms(2) by simp_all
  then show ?thesis
    by (simp add: xor4_def Let_def x xor.assoc)
qed

lemma rev_upt_map: "map (\<lambda>r. n - 1 - r) [0..<n] = rev [0..<n]"
  by (rule nth_equalityI) (simp_all add: rev_nth)

lemma kf_f_loop_cong:
  "pbox c2 = pbox c1 \<Longrightarrow> sbox c2 = sbox c1 \<Longrightarrow> kf_f_loop in8 i c2 out8 = kf_f_loop in8 i c1 out8"
proof (induction in8 i c1 out8 rule: kf_f_loop.induct)
  case (1 in8 i ctx out8)
  show ?case
  proof (cases "i < SBOX_COUNT \<and> unat (pbox ctx ! i) < length out8")
    case True
    then show ?thesis
      using "1.IH" 1(2,3)
      by (simp add: kf_f_loop.simps [of in8 i ctx] kf_f_loop.simps [of in8 i c2])
  next
    case False
    then show ?thesis
      using 1(2,3)
      by (auto simp add: kf_f_loop.simps [of in8 i ctx] kf_f_loop.simps [of in8 i c2])
  qed
qed

lemma kf_invert_ctx_fields:
  "pbox (kf_invert_ctx ctx) = pbox ctx"
  "sbox (kf_invert_ctx ctx) = sbox ctx"
  "r < ROUNDS \<Longrightarrow> skey (kf_invert_ctx ctx) ! r ! 0 = skey ctx ! (ROUNDS - 1 - r) ! 0"
  "r < ROUNDS \<Longrightarrow> skey (kf_invert_ctx ctx) ! r ! Suc 0 = skey ctx ! (ROUNDS - 1 - r) ! Suc 0"
  "k < 4 \<Longrightarrow> wkey (kf_invert_ctx ctx) ! 0 ! k = wkey ctx ! 1 ! k"
  "k < 4 \<Longrightarrow> wkey (kf_invert_ctx ctx) ! Suc 0 ! k = wkey ctx ! 0 ! k"
  by (simp_all add: kf_invert_ctx_def)

lemma kf_pbox_ok_invert: "kf_pbox_ok (kf_invert_ctx ctx) = kf_pbox_ok ctx"
  by (simp add: kf_pbox_ok_def kf_invert_ctx_fields)

lemma kf_f_val_invert:
  assumes "r < ROUNDS"
  shows "kf_f_val bo (kf_invert_ctx ctx) r inp = kf_f_val bo ctx (ROUNDS - 1 - r) inp"
  by (simp add: kf_f_val_def kf_f_def Let_def kf_invert_ctx_fields assms
      kf_f_loop_cong [of "kf_invert_ctx ctx" ctx] split: sum.splits)

lemma kf_f_val_invert_fun:
  "r < ROUNDS \<Longrightarrow> kf_f_val bo (kf_invert_ctx ctx) r = kf_f_val bo ctx (ROUNDS - 1 - r)"
  by (rule ext) (rule kf_f_val_invert)

lemma kf_block_val_invert:
  assumes ok: "kf_pbox_ok ctx" and x: "length x = 4"
  shows "kf_block_val bo (kf_invert_ctx ctx) (kf_block_val bo ctx x) = x"
proof -
  let ?F = "\<lambda>r. feistel_step (kf_f_val bo ctx r)"
  let ?G = "\<lambda>r. feistel_step (kf_f_val bo (kf_invert_ctx ctx) r)"
  define m where "m = xor4 (take 4 x) (wkey ctx ! 0)"
  define y where "y = kf_block_val bo ctx x"
  have lm: "length m = 4"
    using x by (simp add: m_def)
  have y: "y = xor4 (swap_halves (fold ?F [0..<ROUNDS] m)) (wkey ctx ! 1)"
    using kf_block_total(2) [OF ok, of x bo] x by (simp add: y_def m_def)
  have ly: "length y = 4"
    by (simp add: y)
  have oki: "kf_pbox_ok (kf_invert_ctx ctx)"
    using ok by (simp add: kf_pbox_ok_invert)
  have G: "fold ?G [0..<ROUNDS] z = fold ?F (rev [0..<ROUNDS]) z" for z
  proof -
    have "fold ?G [0..<ROUNDS] z = fold (?F \<circ> (\<lambda>r. ROUNDS - 1 - r)) [0..<ROUNDS] z"
      by (rule fold_cong) (simp_all add: kf_f_val_invert_fun)
    also have "\<dots> = fold ?F (map (\<lambda>r. ROUNDS - 1 - r) [0..<ROUNDS]) z"
      by (simp add: fold_map)
    finally show ?thesis
      by (simp only: rev_upt_map)
  qed
  have "kf_block_val bo (kf_invert_ctx ctx) y =
      xor4 (swap_halves (fold ?G [0..<ROUNDS] (xor4 (take 4 y) (wkey (kf_invert_ctx ctx) ! 0))))
        (wkey (kf_invert_ctx ctx) ! 1)"
    using kf_block_total(2) [OF oki, of y bo] ly by simp
  also have "xor4 (take 4 y) (wkey (kf_invert_ctx ctx) ! 0) = swap_halves (fold ?F [0..<ROUNDS] m)"
    using ly by (simp add: y xor4_twice kf_invert_ctx_fields)
  also have "fold ?G [0..<ROUNDS] (swap_halves (fold ?F [0..<ROUNDS] m)) = swap_halves m"
    by (simp only: G feistel_fold_unwind)
  also have "swap_halves (swap_halves m) = m"
    by (rule swap_halves_twice [OF lm])
  also have "xor4 m (wkey (kf_invert_ctx ctx) ! 1) = take 4 x"
    using x by (simp add: m_def xor4_twice kf_invert_ctx_fields)
  finally show ?thesis
    using x by (simp add: y_def)
qed

section \<open>The key schedule succeeds from four bytes on\<close>

lemma kf_chunk_loop_total:
  "bound + 3 \<le> length mem \<Longrightarrow> \<exists>key' sr'. kf_chunk_loop mem bound i key sr = Inr (key', sr')"
proof (induction mem bound i key sr rule: kf_chunk_loop.induct)
  case (1 mem bound i key sr)
  show ?case
  proof (cases "i < bound")
    case False
    then show ?thesis
      by (simp add: kf_chunk_loop_done)
  next
    case True
    then have ib: "i + 3 < length mem"
      using 1(2) by simp
    obtain k s where m: "kf_mix_key 0 key
        (kf_load_register (mem ! i) (mem ! (i + 1)) (mem ! (i + 2)) (mem ! (i + 3))) = (k, s)"
      by (cases "kf_mix_key 0 key
        (kf_load_register (mem ! i) (mem ! (i + 1)) (mem ! (i + 2)) (mem ! (i + 3)))")
    from "1.IH" [OF True ib m [symmetric] 1(2)] show ?thesis
      unfolding kf_chunk_loop_step [OF True ib] m by simp
  qed
qed

lemma size_t_sub_4:
  assumes "4 \<le> passlen" and "passlen \<le> 256"
  shows "size_t_sub passlen 4 = passlen - 4"
proof -
  have "passlen + SIZE_T_MOD - 4 mod SIZE_T_MOD = (passlen - 4) + SIZE_T_MOD"
    using assms by (simp add: SIZE_T_MOD_def)
  moreover have "passlen - 4 < SIZE_T_MOD"
    using assms by (simp add: SIZE_T_MOD_def)
  ultimately show ?thesis
    by (simp add: size_t_sub_def)
qed

lemma size_t_index:
  assumes "4 \<le> passlen" and "passlen \<le> 256" and "i < 4"
  shows "size_t_add (size_t_sub passlen 4) i = passlen - 4 + i"
proof -
  have "passlen - 4 + i < SIZE_T_MOD"
    using assms by (simp add: SIZE_T_MOD_def)
  then show ?thesis
    by (simp add: size_t_add_def size_t_sub_4 [OF assms(1,2)])
qed

lemma kf_chunk_bound_ge4: "4 \<le> passlen \<Longrightarrow> passlen \<le> 256 \<Longrightarrow> kf_chunk_bound passlen = passlen - 4"
  by (simp add: kf_chunk_bound_def size_t_sub_4)

lemma kf_last_loop_total:
  "4 \<le> passlen \<Longrightarrow> passlen \<le> 256 \<Longrightarrow> passlen < length mem \<Longrightarrow>
   \<exists>l. kf_last_loop mem passlen i last_buf = Inr l"
proof (induction mem passlen i last_buf rule: kf_last_loop.induct)
  case (1 mem passlen i last_buf)
  show ?case
  proof (cases "i < passlen mod 4")
    case False
    then show ?thesis
      by (simp add: kf_last_loop_done)
  next
    case True
    then have i4: "i < 4"
      by (simp add: less_trans [OF True])
    have ix: "size_t_add (size_t_sub passlen 4) i = passlen - 4 + i"
      using size_t_index [OF 1(2,3) i4] .
    have "passlen mod 4 \<le> passlen"
      by simp
    then have lt: "passlen - 4 + i < length mem"
      using True 1(2,4) by linarith
    have rc: "read_char mem (size_t_add (size_t_sub passlen 4) i) = Inr (mem ! (passlen - 4 + i))"
      using lt by (simp add: read_char_def ix)
    from "1.IH" [OF True rc 1(2,3,4)] show ?thesis
      by (simp add: kf_last_loop_step [OF True] rc)
  qed
qed

lemma strlen_c_string_le: "strlen (c_string p) \<le> length p"
proof -
  have "takeWhile (\<lambda>c. c \<noteq> 0) (p @ [0 :: u8]) = takeWhile (\<lambda>c. c \<noteq> 0) p"
    by (induction p) simp_all
  then show ?thesis
    by (simp add: strlen_def c_string_def length_takeWhile_le)
qed

lemma kf_expand_passphrase_key_total:
  assumes "4 \<le> strlen (c_string passphrase)"
  shows "\<exists>key. kf_expand_passphrase_key passphrase = Inr key"
proof -
  define mem where "mem = c_string passphrase"
  define passlen where "passlen = (if strlen mem > 256 then 256 else strlen mem)"
  have p: "4 \<le> passlen" "passlen \<le> 256"
    using assms by (simp_all add: passlen_def mem_def)
  have pl: "passlen < length mem"
    using strlen_c_string_le [of passphrase] by (simp add: passlen_def mem_def c_string_def)
  have "kf_chunk_bound passlen + 3 \<le> length mem"
    using p pl by (simp add: kf_chunk_bound_ge4)
  from kf_chunk_loop_total [OF this] obtain k s where
    c: "kf_chunk_loop mem (kf_chunk_bound passlen) 0 (replicate KEY_SIZE 0) 0 = Inr (k, s)"
    by blast
  from kf_last_loop_total [OF p pl] obtain l where
    l: "kf_last_loop mem passlen 0 (replicate 4 0) = Inr l"
    by blast
  show ?thesis
    using c l unfolding kf_expand_passphrase_key_def mem_def [symmetric] Let_def
      passlen_def [symmetric]
    by simp
qed

lemma kf_expand_passphrase_total:
  "4 \<le> strlen (c_string passphrase) \<Longrightarrow> \<exists>ctx'. kf_expand_passphrase passphrase ctx = Inr ctx'"
  using kf_expand_passphrase_key_total [of passphrase]
  by (auto simp: kf_expand_passphrase_def)

lemma kf_expand_passphrase_pbox_ok:
  assumes "length (pbox ctx0) = PBOX_SIZE" and "kf_expand_passphrase passphrase ctx0 = Inr ctx"
  shows "kf_pbox_ok ctx"
proof -
  from assms(2) obtain key where "ctx = kf_expand_passphrase_ctx key ctx0"
    by (auto simp: kf_expand_passphrase_def split: sum.splits)
  then show ?thesis
    using kf_init_pbox_perm [OF assms(1)]
    by (simp add: kf_pbox_ok_def kf_expand_passphrase_ctx_def)
qed

lemma kf_ctx_decl_pbox: "length (pbox kf_ctx_decl) = PBOX_SIZE"
  by (simp add: kf_ctx_decl_def)

lemma strlen_test: "strlen (c_string [0x74, 0x65, 0x73, 0x74]) = 4"
  by (simp add: strlen_def c_string_def)

text \<open>
  C2. For every block \<open>x\<close> of four words and every context that \<^verbatim>\<open>kf_expand_passphrase\<close>
  produces (in a caller's context of the declared shape), the block function with the
  context followed by the block function with the inverted context returns \<open>x\<close>, on a
  host of either byte order.
\<close>

theorem kf_block_invert_ctx_inverse:
  assumes "length (pbox ctx0) = PBOX_SIZE"
    and "kf_expand_passphrase passphrase ctx0 = Inr ctx"
    and "length x = 4"
  shows "\<exists>y. kf_block bo x ctx = Inr (y, ctx)
     \<and> kf_block bo y (kf_invert_ctx ctx) = Inr (x, kf_invert_ctx ctx)"
proof -
  have ok: "kf_pbox_ok ctx"
    using kf_expand_passphrase_pbox_ok [OF assms(1,2)] .
  have oki: "kf_pbox_ok (kf_invert_ctx ctx)"
    using ok by (simp add: kf_pbox_ok_invert)
  have "kf_block bo x ctx = Inr (kf_block_val bo ctx x, ctx)"
    using kf_block_total(1) [OF ok] assms(3) by simp
  moreover have "kf_block bo (kf_block_val bo ctx x) (kf_invert_ctx ctx) =
      Inr (kf_block_val bo (kf_invert_ctx ctx) (kf_block_val bo ctx x), kf_invert_ctx ctx)"
    using kf_block_total(1) [OF oki] kf_block_total(3) [OF ok, of x bo] assms(3) by simp
  ultimately show ?thesis
    using kf_block_val_invert [OF ok assms(3)] by simp
qed

theorem kf_block_invert_ctx_inverse_witness:
  "\<exists>ctx y. kf_expand_passphrase [0x74, 0x65, 0x73, 0x74] kf_ctx_decl = Inr ctx
     \<and> kf_block LittleEndian [1, 2, 3, 4] ctx = Inr (y, ctx)
     \<and> kf_block LittleEndian y (kf_invert_ctx ctx) = Inr ([1, 2, 3, 4], kf_invert_ctx ctx)"
proof -
  obtain ctx where e: "kf_expand_passphrase [0x74, 0x65, 0x73, 0x74] kf_ctx_decl = Inr ctx"
    using kf_expand_passphrase_total [of "[0x74, 0x65, 0x73, 0x74]" kf_ctx_decl] strlen_test
    by auto
  have l: "length [1, 2, 3, 4 :: u32] = 4"
    by simp
  from kf_block_invert_ctx_inverse [OF kf_ctx_decl_pbox e l, of LittleEndian] e
  show ?thesis
    by blast
qed

section \<open>The context is left unchanged\<close>

lemma kf_f_ctx: "kf_f bo inp out8 round ctx = Inr (out, ctx') \<Longrightarrow> ctx' = ctx"
  by (auto simp: kf_f_def Let_def split: sum.splits if_splits)

lemma kf_round_ctx: "kf_round bo mem inp outp round ctx = Inr (out, ctx') \<Longrightarrow> ctx' = ctx"
  by (auto simp: kf_round_def Let_def split: sum.splits if_splits dest: kf_f_ctx)

lemma kf_block_loop_ctx: "kf_block_loop bo i m ctx = Inr (out, ctx') \<Longrightarrow> ctx' = ctx"
proof (induction bo i m ctx rule: kf_block_loop.induct)
  case (1 bo i m ctx)
  show ?case
  proof (cases "i < ROUNDS")
    case False
    with 1(2) show ?thesis
      by (simp add: kf_block_loop_done)
  next
    case True
    from 1(2) obtain m1 c1 where
      r: "kf_round bo m 0 0 i ctx = Inr (m1, c1)" and l: "kf_block_loop bo (i + 1) m1 c1 = Inr (out, ctx')"
      by (auto simp: kf_block_loop_step [OF True] split: sum.splits)
    have "c1 = ctx"
      using kf_round_ctx [OF r] .
    moreover have "ctx' = c1"
      using "1.IH" [OF True r refl l] .
    ultimately show ?thesis
      by simp
  qed
qed

lemma kf_block_ctx: "kf_block bo x ctx = Inr (out, ctx') \<Longrightarrow> ctx' = ctx"
  by (auto simp: kf_block_def Let_def split: sum.splits dest: kf_block_loop_ctx)

lemma kf_round_total:
  assumes "kf_pbox_ok ctx"
  shows "\<exists>out. kf_round bo mem inp outp round ctx = Inr (out, ctx)"
  by (simp add: kf_round_def kf_f_total(1) [OF assms] Let_def)

lemma kf_block_loop_total:
  assumes "kf_pbox_ok ctx"
  shows "\<exists>out. kf_block_loop bo i m ctx = Inr (out, ctx)"
proof (induction "ROUNDS - i" arbitrary: i m)
  case 0
  then show ?case
    by (simp add: kf_block_loop_done)
next
  case (Suc n)
  then have lt: "i < ROUNDS"
    by simp
  obtain m1 where r: "kf_round bo m 0 0 i ctx = Inr (m1, ctx)"
    using kf_round_total [OF assms] by blast
  have "n = ROUNDS - (i + 1)"
    using Suc.hyps(2) by simp
  from Suc.hyps(1) [OF this, of m1] show ?case
    by (simp add: kf_block_loop_step [OF lt] r)
qed

lemma kf_block_returns:
  assumes "kf_pbox_ok ctx"
  shows "\<exists>out. kf_block bo x ctx = Inr (out, ctx)"
proof -
  obtain m where "kf_block_loop bo 0 (xor4 (take 4 x) (wkey ctx ! 0)) ctx = Inr (m, ctx)"
    using kf_block_loop_total [OF assms] by blast
  then show ?thesis
    by (simp add: kf_block_def Let_def)
qed

text \<open>
  C10. The block function, the Feistel round and the round function leave the context as
  they found it: whenever one of them returns, the context it returns, with its
  substitution boxes, permutation box, round subkeys and whitening keys, is the one it was
  given; and for a context whose permutation box is a permutation they do return, for
  every input. The inverted context is a value of its own computed by
  \<^verbatim>\<open>kf_invert_ctx\<close>.
\<close>

theorem kf_block_leaves_ctx_unchanged:
  "(\<forall>out ctx'. kf_f bo inp out8 round ctx = Inr (out, ctx') \<longrightarrow> ctx' = ctx)
   \<and> (\<forall>out ctx'. kf_round bo mem i j round ctx = Inr (out, ctx') \<longrightarrow> ctx' = ctx)
   \<and> (\<forall>out ctx'. kf_block bo x ctx = Inr (out, ctx') \<longrightarrow> ctx' = ctx)
   \<and> (kf_pbox_ok ctx \<longrightarrow>
        (\<exists>out. kf_f bo inp (replicate 8 None) round ctx = Inr (out, ctx))
        \<and> (\<exists>out. kf_round bo mem i j round ctx = Inr (out, ctx))
        \<and> (\<exists>out. kf_block bo x ctx = Inr (out, ctx)))"
proof (intro conjI allI impI)
  show "ctx' = ctx" if "kf_f bo inp out8 round ctx = Inr (out, ctx')" for out ctx'
    using kf_f_ctx [OF that] .
  show "ctx' = ctx" if "kf_round bo mem i j round ctx = Inr (out, ctx')" for out ctx'
    using kf_round_ctx [OF that] .
  show "ctx' = ctx" if "kf_block bo x ctx = Inr (out, ctx')" for out ctx'
    using kf_block_ctx [OF that] .
  show "\<exists>out. kf_f bo inp (replicate 8 None) round ctx = Inr (out, ctx)" if "kf_pbox_ok ctx"
    using kf_f_total(1) [OF that] by blast
  show "\<exists>out. kf_round bo mem i j round ctx = Inr (out, ctx)" if "kf_pbox_ok ctx"
    using kf_round_total [OF that] .
  show "\<exists>out. kf_block bo x ctx = Inr (out, ctx)" if "kf_pbox_ok ctx"
    using kf_block_returns [OF that] .
qed

lemma kf_pbox_ok_identity:
  "kf_pbox_ok \<lparr> sbox = sb, pbox = [0, 1, 2, 3, 4, 5, 6, 7], skey = sk, wkey = wk \<rparr>"
proof -
  have u: "[0..<8] = [0, 1, 2, 3, 4, 5, 6, 7 :: nat]"
    by (simp add: upt_rec numeral_eq_Suc)
  show ?thesis
    unfolding kf_pbox_ok_def PBOX_SIZE_def u by simp
qed

theorem kf_block_leaves_ctx_unchanged_witness:
  "\<exists>out. kf_block LittleEndian [1, 2, 3, 4]
       \<lparr> sbox = replicate 8 (replicate 256 7), pbox = [0, 1, 2, 3, 4, 5, 6, 7],
         skey = replicate 16 [5, 6], wkey = [[1, 2, 3, 4], [5, 6, 7, 8]] \<rparr>
     = Inr (out, \<lparr> sbox = replicate 8 (replicate 256 7), pbox = [0, 1, 2, 3, 4, 5, 6, 7],
         skey = replicate 16 [5, 6], wkey = [[1, 2, 3, 4], [5, 6, 7, 8]] \<rparr>)"
  using kf_block_leaves_ctx_unchanged
    [of LittleEndian "[]" "[]" 0
      "\<lparr> sbox = replicate 8 (replicate 256 7), pbox = [0, 1, 2, 3, 4, 5, 6, 7],
         skey = replicate 16 [5, 6], wkey = [[1, 2, 3, 4], [5, 6, 7, 8]] \<rparr>" "[]" 0 0 "[1, 2, 3, 4]"]
    kf_pbox_ok_identity
  by blast

section \<open>Words and bytes are two views of the same storage\<close>

lemma u32_le_join_split:
  "(ucast (ucast w :: u8) :: u32) OR push_bit 8 (ucast (ucast (drop_bit 8 w) :: u8))
     OR push_bit 16 (ucast (ucast (drop_bit 16 w) :: u8))
     OR push_bit 24 (ucast (ucast (drop_bit 24 w) :: u8)) = (w :: u32)"
proof (rule bit_word_eqI)
  fix n
  assume "n < LENGTH(32)"
  then consider "n < 8" | "8 \<le> n" "n < 16" | "16 \<le> n" "n < 24" | "24 \<le> n" "n < 32"
    by fastforce
  then show "bit ((ucast (ucast w :: u8) :: u32) OR push_bit 8 (ucast (ucast (drop_bit 8 w) :: u8))
     OR push_bit 16 (ucast (ucast (drop_bit 16 w) :: u8))
     OR push_bit 24 (ucast (ucast (drop_bit 24 w) :: u8))) n = bit w n"
    by cases (auto simp: bit_simps)
qed

lemma u32_le_split_join:
  fixes a b c d :: u8
  defines "w \<equiv> (ucast a :: u32) OR push_bit 8 (ucast b) OR push_bit 16 (ucast c) OR push_bit 24 (ucast d)"
  shows "(ucast w :: u8) = a" and "(ucast (drop_bit 8 w) :: u8) = b"
    and "(ucast (drop_bit 16 w) :: u8) = c" and "(ucast (drop_bit 24 w) :: u8) = d"
     apply (rule bit_word_eqI; auto simp: bit_simps w_def dest: bit_imp_le_length)+
  done


lemma length_bytes_of_u32 [simp]: "length (bytes_of_u32 bo w) = 4"
  by (cases bo) (simp_all add: bytes_of_u32_def)

lemma u32_of_bytes_of_u32 [simp]: "u32_of_bytes bo (bytes_of_u32 bo w) = w"
  by (cases bo) (simp_all add: bytes_of_u32_def u32_of_bytes_def u32_le_join_split or.assoc or.commute or.left_commute)

lemma bytes_of_u32_of_bytes: "bytes_of_u32 bo (u32_of_bytes bo [a, b, c, d]) = [a, b, c, d]"
  by (cases bo; simp add: bytes_of_u32_def u32_of_bytes_def; intro conjI; rule bit_word_eqI;
      auto simp: bit_simps dest: bit_imp_le_length)

lemma length_bytes_of_words [simp]: "length (bytes_of_words bo ws) = 4 * length ws"
  by (induction ws) (simp_all add: bytes_of_words_def)

lemma words_of_bytes_append4:
  "length b = 4 \<Longrightarrow> words_of_bytes bo (b @ bs) = u32_of_bytes bo b # words_of_bytes bo bs"
  using list4 [of b] by auto

lemma words_of_bytes_of_words [simp]: "words_of_bytes bo (bytes_of_words bo ws) = ws"
proof (induction ws)
  case Nil
  then show ?case by (simp add: bytes_of_words_def)
next
  case (Cons w ws)
  have "bytes_of_words bo (w # ws) = bytes_of_u32 bo w @ bytes_of_words bo ws"
    by (simp add: bytes_of_words_def)
  then show ?case
    using Cons.IH by (simp add: words_of_bytes_append4)
qed

lemma length_words_of_bytes: "length (words_of_bytes bo bs) = length bs div 4"
  by (induction bo bs rule: words_of_bytes.induct) simp_all

lemma not_4_dvd_small: "\<not> 4 dvd Suc 0" "\<not> 4 dvd Suc (Suc 0)" "\<not> 4 dvd Suc (Suc (Suc 0))"
  by presburger+

lemma bytes_of_words_of_bytes: "4 dvd length bs \<Longrightarrow> bytes_of_words bo (words_of_bytes bo bs) = bs"
proof (induction bo bs rule: words_of_bytes.induct)
  case (1 bo a b c d bs)
  then have "4 dvd length bs"
    by simp presburger
  with 1 show ?case
    using bytes_of_u32_of_bytes [of bo a b c d] by (simp add: bytes_of_words_def)
qed (simp_all add: bytes_of_words_def not_4_dvd_small)

section \<open>What decryption emits\<close>

lemma kf_decrypt_loop_done:
  "\<not> int i < block_count \<Longrightarrow> kf_decrypt_loop bo infile block_count i pos key out inv_ctx = Inr out"
  by (simp add: kf_decrypt_loop.simps)

lemma kf_decrypt_loop_step:
  assumes "int i < block_count" and "kf_pbox_ok inv_ctx"
    and "pos = BLOCK_SIZE * (i + 1)"
    and "BLOCK_SIZE * (i + 2) \<le> length infile"
    and "key = words_of_bytes bo (take BLOCK_SIZE (drop (BLOCK_SIZE * i) infile))"
  shows "kf_decrypt_loop bo infile block_count i pos key out inv_ctx =
     (if int i \<noteq> block_count - 1 then
        kf_decrypt_loop bo infile block_count (i + 1) (BLOCK_SIZE * (i + 2))
          (words_of_bytes bo (take BLOCK_SIZE (drop (BLOCK_SIZE * (i + 1)) infile)))
          (out @ kf_recovered_block bo inv_ctx infile i) inv_ctx
      else if unat (kf_recovered_block bo inv_ctx infile i ! (BLOCK_SIZE - 1)) > BLOCK_SIZE
        then Inl OutOfBounds
      else
        kf_decrypt_loop bo infile block_count (i + 1) (BLOCK_SIZE * (i + 2))
          (words_of_bytes bo (take BLOCK_SIZE (drop (BLOCK_SIZE * (i + 1)) infile)))
          (out @ take (unat (kf_recovered_block bo inv_ctx infile i ! (BLOCK_SIZE - 1)))
             (kf_recovered_block bo inv_ctx infile i)) inv_ctx)"
proof -
  define block where "block = words_of_bytes bo (take BLOCK_SIZE (drop pos infile))"
  have "length (take BLOCK_SIZE (drop pos infile)) = 16"
    using assms(3,4) by (simp add: BLOCK_SIZE_def)
  then have lb: "4 \<le> length block"
    by (simp add: block_def length_words_of_bytes)
  have kb: "kf_block bo block inv_ctx = Inr (kf_block_val bo inv_ctx block, inv_ctx)"
    using kf_block_total(1) [OF assms(2) lb] .
  have p2: "pos + BLOCK_SIZE = BLOCK_SIZE * (i + 2)"
    using assms(3) by simp
  have rb: "bytes_of_words bo (xor4 (kf_block_val bo inv_ctx block) key) =
      kf_recovered_block bo inv_ctx infile i"
    by (simp add: kf_recovered_block_def block_def assms(3,5))
  show ?thesis
    by (subst kf_decrypt_loop.simps)
      (simp add: assms(1) Let_def block_def [symmetric] kb p2 rb, simp add: block_def assms(3))
qed


lemma kf_decrypt_loop_emit:
  assumes ok: "kf_pbox_ok inv_ctx"
    and len: "BLOCK_SIZE * (n + 1) \<le> length infile"
  shows "i < n \<Longrightarrow>
     kf_decrypt_loop bo infile (int n) i (BLOCK_SIZE * (i + 1))
       (words_of_bytes bo (take BLOCK_SIZE (drop (BLOCK_SIZE * i) infile))) out inv_ctx =
     (if unat (kf_recovered_block bo inv_ctx infile (n - 1) ! (BLOCK_SIZE - 1)) > BLOCK_SIZE
      then Inl OutOfBounds
      else Inr (out @ concat (map (kf_recovered_block bo inv_ctx infile) [i..<n - 1])
             @ take (unat (kf_recovered_block bo inv_ctx infile (n - 1) ! (BLOCK_SIZE - 1)))
                 (kf_recovered_block bo inv_ctx infile (n - 1))))"
proof (induction "n - i" arbitrary: i out)
  case 0
  then show ?case by simp
next
  case (Suc k)
  have i1: "int i < int n"
    using Suc.prems by simp
  have "i + 2 \<le> n + 1"
    using Suc.prems by simp
  then have "BLOCK_SIZE * (i + 2) \<le> BLOCK_SIZE * (n + 1)"
    by (rule mult_le_mono2)
  then have l2: "BLOCK_SIZE * (i + 2) \<le> length infile"
    using len by simp
  note st = kf_decrypt_loop_step [OF i1 ok refl l2 refl]
  show ?case
  proof (cases "i = n - 1")
    case True
    then have e: "[i..<n - 1] = []" and d: "\<not> int (i + 1) < int n" and c: "\<not> int i \<noteq> int n - 1"
      using Suc.prems by simp_all
    show ?thesis
      unfolding st e using c True Suc.prems by (simp add: kf_decrypt_loop_done)
  next
    case False
    then have lt: "i + 1 < n" and c: "int i \<noteq> int n - 1"
      using Suc.prems by simp_all
    have k: "k = n - (i + 1)"
      using Suc.hyps(2) by simp
    have u: "[i..<n - 1] = i # [i + 1..<n - 1]"
      using lt by (simp add: upt_conv_Cons)
    have p: "BLOCK_SIZE * (i + 2) = BLOCK_SIZE * (i + 1 + 1)"
      by simp
    show ?thesis
      unfolding st if_P [OF c] p Suc.hyps(1) [OF k lt] u by simp
  qed
qed

lemma kf_decrypt_file_cbc_emit:
  assumes e: "kf_expand_passphrase passphrase kf_ctx_decl = Inr ctx"
    and len: "2 * BLOCK_SIZE \<le> length infile"
  shows "kf_decrypt_file_cbc bo infile passphrase =
     (let n = length infile div BLOCK_SIZE - 1;
          final = kf_recovered_block bo (kf_invert_ctx ctx) infile (n - 1);
          r = unat (final ! (BLOCK_SIZE - 1))
      in if r > BLOCK_SIZE then Inl OutOfBounds
         else Inr (concat (map (kf_recovered_block bo (kf_invert_ctx ctx) infile) [0..<n - 1])
                @ take r final))"
proof -
  define n where "n = length infile div BLOCK_SIZE - 1"
  have d: "2 \<le> length infile div BLOCK_SIZE"
    using len by (simp add: BLOCK_SIZE_def)
  then have n0: "0 < n"
    by (simp add: n_def)
  have bc: "int (length infile) div int BLOCK_SIZE - 1 = int n"
    using d by (simp add: n_def zdiv_int)
  have "BLOCK_SIZE * (n + 1) = BLOCK_SIZE * (length infile div BLOCK_SIZE)"
    using d by (simp add: n_def)
  then have l: "BLOCK_SIZE * (n + 1) \<le> length infile"
    by simp
  have ok: "kf_pbox_ok (kf_invert_ctx ctx)"
    using kf_expand_passphrase_pbox_ok [OF kf_ctx_decl_pbox e] by (simp add: kf_pbox_ok_invert)
  have m: "min BLOCK_SIZE (length infile) = BLOCK_SIZE * (0 + 1)"
    using len by simp
  have k: "take BLOCK_SIZE infile = take BLOCK_SIZE (drop (BLOCK_SIZE * 0) infile)"
    by simp
  show ?thesis
    unfolding kf_decrypt_file_cbc_def e Let_def bc n_def [symmetric] m k
    using kf_decrypt_loop_emit [OF ok l n0, of bo "[]"] by simp
qed

section \<open>What encryption enciphers\<close>

lemma kf_encrypt_loop_done:
  "\<not> i < block_count \<Longrightarrow>
   kf_encrypt_loop bo infile padding remaining block_count i pos key out ctx = Inr (key, out, ctx)"
  by (simp add: kf_encrypt_loop.simps)

lemma length_kf_plain_block:
  assumes "BLOCK_SIZE \<le> length padding" and "j \<le> length infile div BLOCK_SIZE"
  shows "length (kf_plain_block infile padding j) = BLOCK_SIZE"
proof (cases "j < length infile div BLOCK_SIZE")
  case True
  then have "Suc j \<le> length infile div BLOCK_SIZE"
    by simp
  then have "BLOCK_SIZE * Suc j \<le> BLOCK_SIZE * (length infile div BLOCK_SIZE)"
    by (rule mult_le_mono2)
  then have "BLOCK_SIZE * j + BLOCK_SIZE \<le> length infile"
    by (simp add: BLOCK_SIZE_def)
  then show ?thesis
    using True by (simp add: kf_plain_block_def)
next
  case False
  then have j: "j = length infile div BLOCK_SIZE"
    using assms(2) by simp
  have "length infile - BLOCK_SIZE * j = length infile mod BLOCK_SIZE"
    unfolding j by (simp add: minus_mult_div_eq_mod)
  then show ?thesis
    using False assms(1) by (simp add: kf_plain_block_def BLOCK_SIZE_def)
qed

lemma kf_encrypt_loop_step:
  assumes ok: "kf_pbox_ok ctx"
    and pad: "BLOCK_SIZE \<le> length padding"
    and rem: "remaining = length infile mod BLOCK_SIZE"
    and bc: "block_count = length infile div BLOCK_SIZE + (if remaining > 0 then 1 else 0)"
    and i: "i < block_count"
    and pos: "pos = BLOCK_SIZE * i"
  shows "\<exists>pos'. kf_encrypt_loop bo infile padding remaining block_count i pos key out ctx =
     kf_encrypt_loop bo infile padding remaining block_count (i + 1) pos'
       (kf_block_val bo ctx (xor4 (words_of_bytes bo (kf_plain_block infile padding i)) key))
       (out @ bytes_of_words bo
          (kf_block_val bo ctx (xor4 (words_of_bytes bo (kf_plain_block infile padding i)) key)))
       ctx
     \<and> (i + 1 < block_count \<longrightarrow> pos' = BLOCK_SIZE * (i + 1))"
proof -
  have ile: "i \<le> length infile div BLOCK_SIZE"
    using i bc by (simp split: if_splits)
  have lw: "4 \<le> length (xor4 (words_of_bytes bo (kf_plain_block infile padding i)) key)"
    using length_kf_plain_block [OF pad ile] by (simp add: length_words_of_bytes BLOCK_SIZE_def)
  note kb = kf_block_total(1) [OF ok lw]
  define branch where "branch =
     (if i = block_count - 1 \<and> remaining \<noteq> 0 then
        (if length padding < BLOCK_SIZE then Inl OutOfBounds
         else
           (let block0 = take BLOCK_SIZE padding;
                got = take remaining (drop pos infile);
                block1 = got @ drop (length got) block0;
                block2 = block1[BLOCK_SIZE - 1 := word_of_nat remaining]
            in Inr (block2, pos + length got)))
      else Inr (take BLOCK_SIZE (drop pos infile), pos + BLOCK_SIZE))"
  have unf: "kf_encrypt_loop bo infile padding remaining block_count i pos key out ctx =
     (case branch of
        Inl e \<Rightarrow> Inl e
      | Inr (block8, pos') \<Rightarrow>
          (case kf_block bo (xor4 (words_of_bytes bo block8) key) ctx of
             Inl e \<Rightarrow> Inl e
           | Inr (tmp, ctx') \<Rightarrow>
               kf_encrypt_loop bo infile padding remaining block_count (i + 1) pos' tmp
                 (out @ bytes_of_words bo tmp) ctx'))"
    unfolding branch_def using i by (subst kf_encrypt_loop.simps) simp
  have "\<exists>pos'. branch = Inr (kf_plain_block infile padding i, pos')
      \<and> (i + 1 < block_count \<longrightarrow> pos' = BLOCK_SIZE * (i + 1))"
  proof (cases "i = block_count - 1 \<and> remaining \<noteq> 0")
    case True
    then have idiv: "i = length infile div BLOCK_SIZE"
      using bc by simp
    have "length infile - BLOCK_SIZE * i = remaining"
      unfolding idiv rem by (simp add: minus_mult_div_eq_mod)
    then have got: "take remaining (drop pos infile) = drop (BLOCK_SIZE * i) infile"
      "length (drop (BLOCK_SIZE * i) infile) = remaining"
      by (simp_all add: pos)
    have pb: "kf_plain_block infile padding i =
        (drop (BLOCK_SIZE * i) infile @ drop remaining (take BLOCK_SIZE padding))
        [BLOCK_SIZE - 1 := word_of_nat remaining]"
      using True by (simp add: kf_plain_block_def idiv rem)
    have last: "\<not> i + 1 < block_count"
      using True i by simp
    have np: "\<not> length padding < BLOCK_SIZE"
      using pad by simp
    show ?thesis
      unfolding branch_def if_P [OF True] if_not_P [OF np] Let_def got pb using last by simp
  next
    case False
    then have "i < length infile div BLOCK_SIZE"
      using i bc by (auto split: if_splits)
    then have pb: "kf_plain_block infile padding i = take BLOCK_SIZE (drop pos infile)"
      by (simp add: kf_plain_block_def pos)
    show ?thesis
      unfolding branch_def if_not_P [OF False] pb by (simp add: pos)
  qed
  then obtain pos' where br: "branch = Inr (kf_plain_block infile padding i, pos')"
    and p': "i + 1 < block_count \<longrightarrow> pos' = BLOCK_SIZE * (i + 1)"
    by blast
  show ?thesis
    unfolding unf br using p' by (intro exI [of _ pos']) (simp add: kb)
qed

lemma kf_encrypt_loop_chain:
  assumes ok: "kf_pbox_ok ctx"
    and pad: "BLOCK_SIZE \<le> length padding"
    and rem: "remaining = length infile mod BLOCK_SIZE"
    and bc: "block_count = length infile div BLOCK_SIZE + (if remaining > 0 then 1 else 0)"
  shows "i \<le> block_count \<Longrightarrow> (i < block_count \<longrightarrow> pos = BLOCK_SIZE * i) \<Longrightarrow>
     kf_encrypt_loop bo infile padding remaining block_count i pos key out ctx =
       Inr (last (key # kf_cbc_chain bo ctx key
                    (map (kf_plain_block infile padding) [i..<block_count])),
            out @ concat (map (bytes_of_words bo)
                    (kf_cbc_chain bo ctx key (map (kf_plain_block infile padding) [i..<block_count]))),
            ctx)"
proof (induction "block_count - i" arbitrary: i pos key out)
  case 0
  then show ?case
    by (simp add: kf_encrypt_loop_done)
next
  case (Suc k)
  then have lt: "i < block_count" and pos: "pos = BLOCK_SIZE * i"
    by simp_all
  define c where "c = kf_block_val bo ctx (xor4 (words_of_bytes bo (kf_plain_block infile padding i)) key)"
  from kf_encrypt_loop_step [OF ok pad rem bc lt pos, of bo key out] obtain pos' where
    st: "kf_encrypt_loop bo infile padding remaining block_count i pos key out ctx =
       kf_encrypt_loop bo infile padding remaining block_count (i + 1) pos' c
         (out @ bytes_of_words bo c) ctx"
    and p': "i + 1 < block_count \<longrightarrow> pos' = BLOCK_SIZE * (i + 1)"
    unfolding c_def by blast
  have k: "k = block_count - (i + 1)"
    using Suc.hyps(2) by simp
  have le: "i + 1 \<le> block_count"
    using lt by simp
  have u: "[i..<block_count] = i # [i + 1..<block_count]"
    using lt by (simp add: upt_conv_Cons)
  show ?case
    unfolding st Suc.hyps(1) [OF k le p'] u by (simp add: c_def)
qed

lemma kf_cbc_chain_append:
  "kf_cbc_chain bo ctx key (xs @ ys) =
     kf_cbc_chain bo ctx key xs @ kf_cbc_chain bo ctx (last (key # kf_cbc_chain bo ctx key xs)) ys"
  by (induction xs arbitrary: key) simp_all

lemma length_kf_cbc_chain [simp]: "length (kf_cbc_chain bo ctx key bs) = length bs"
  by (induction bs arbitrary: key) simp_all

lemma kf_cbc_chain_lengths:
  assumes "kf_pbox_ok ctx"
  shows "\<forall>b\<in>set bs. length b = BLOCK_SIZE \<Longrightarrow> \<forall>c\<in>set (kf_cbc_chain bo ctx key bs). length c = 4"
proof (induction bs arbitrary: key)
  case Nil
  then show ?case by simp
next
  case (Cons b bs)
  have "4 \<le> length (xor4 (words_of_bytes bo b) key)"
    using Cons.prems by (simp add: length_words_of_bytes BLOCK_SIZE_def)
  from kf_block_total(3) [OF assms this] Cons show ?case
    by simp
qed

lemma words_of_zero_block: "words_of_bytes bo (replicate BLOCK_SIZE 0) = [0, 0, 0, 0]"
  by (cases bo) (simp_all add: BLOCK_SIZE_def numeral_eq_Suc u32_of_bytes_def)

lemma kf_plain_blocks_lengths:
  assumes "BLOCK_SIZE \<le> length padding" and "m \<le> length infile div BLOCK_SIZE + 1"
  shows "\<forall>b\<in>set (map (kf_plain_block infile padding) [0..<m]). length b = BLOCK_SIZE"
  using assms by (auto intro!: length_kf_plain_block)

lemma kf_encrypt_file_cbc_chain:
  assumes e: "kf_expand_passphrase passphrase kf_ctx_decl = Inr ctx"
    and iv: "BLOCK_SIZE \<le> length iv"
    and pad: "BLOCK_SIZE \<le> length padding"
  shows "kf_encrypt_file_cbc bo infile passphrase iv padding =
     Inr (take BLOCK_SIZE iv @ concat (map (bytes_of_words bo)
       (kf_cbc_chain bo ctx (words_of_bytes bo (take BLOCK_SIZE iv))
          (map (kf_plain_block infile padding) [0..<length infile div BLOCK_SIZE + 1]))))"
proof -
  define q where "q = length infile div BLOCK_SIZE"
  define remaining where "remaining = length infile mod BLOCK_SIZE"
  define block_count where "block_count = q + (if remaining > 0 then 1 else 0)"
  define key where "key = words_of_bytes bo (take BLOCK_SIZE iv)"
  define cs where "cs = kf_cbc_chain bo ctx key (map (kf_plain_block infile padding) [0..<block_count])"
  have ok: "kf_pbox_ok ctx"
    using kf_expand_passphrase_pbox_ok [OF kf_ctx_decl_pbox e] .
  have niv: "\<not> length iv < BLOCK_SIZE"
    using iv by simp
  have bc: "block_count = length infile div BLOCK_SIZE + (if remaining > 0 then 1 else 0)"
    by (simp add: block_count_def q_def)
  have loop: "kf_encrypt_loop bo infile padding remaining block_count 0 0 key (take BLOCK_SIZE iv) ctx =
      Inr (last (key # cs), take BLOCK_SIZE iv @ concat (map (bytes_of_words bo) cs), ctx)"
    unfolding cs_def
    by (rule kf_encrypt_loop_chain [OF ok pad remaining_def bc]) simp_all
  have unf: "kf_encrypt_file_cbc bo infile passphrase iv padding =
      (if remaining = 0 then
         (case kf_block bo (xor4 [0, 0, 0, 0] (last (key # cs))) ctx of
            Inl e \<Rightarrow> Inl e
          | Inr (tmp, ctx'') \<Rightarrow>
              Inr ((take BLOCK_SIZE iv @ concat (map (bytes_of_words bo) cs)) @ bytes_of_words bo tmp))
       else Inr (take BLOCK_SIZE iv @ concat (map (bytes_of_words bo) cs)))"
    unfolding kf_encrypt_file_cbc_def e Let_def remaining_def [symmetric] q_def [symmetric]
      block_count_def [symmetric] key_def [symmetric]
    by (simp add: niv loop)
  show ?thesis
  proof (cases "remaining = 0")
    case False
    then have "block_count = q + 1"
      by (simp add: block_count_def)
    then show ?thesis
      unfolding unf using False by (simp add: cs_def key_def q_def)
  next
    case True
    then have bq: "block_count = q"
      by (simp add: block_count_def)
    have lk: "length key = 4"
      using iv by (simp add: key_def length_words_of_bytes BLOCK_SIZE_def)
    have "\<forall>c\<in>set cs. length c = 4"
      unfolding cs_def
      by (rule kf_cbc_chain_lengths [OF ok], rule kf_plain_blocks_lengths [OF pad])
        (simp add: bq q_def)
    then have "length (last (key # cs)) = 4"
      using lk by (cases "cs = []") simp_all
    then have l4: "4 \<le> length (xor4 [0, 0, 0, 0] (last (key # cs)))"
      by simp
    have pq: "kf_plain_block infile padding q = replicate BLOCK_SIZE 0"
      using True by (simp add: kf_plain_block_def q_def remaining_def)
    have u: "[0..<q + 1] = [0..<q] @ [q]"
      by simp
    have "kf_cbc_chain bo ctx key (map (kf_plain_block infile padding) [0..<q + 1]) =
        cs @ [kf_block_val bo ctx (xor4 [0, 0, 0, 0] (last (key # cs)))]"
      unfolding u map_append kf_cbc_chain_append cs_def bq
      by (simp add: pq words_of_zero_block)
    then show ?thesis
      unfolding unf if_P [OF True] kf_block_total(1) [OF ok l4] key_def [symmetric]
        q_def [symmetric]
      by (simp del: last.simps)
  qed
qed

section \<open>Blocks of a stream\<close>

lemma concat_block_nth:
  "\<forall>b\<in>set bl. length b = n \<Longrightarrow> j < length bl \<Longrightarrow> take n (drop (n * j) (concat bl)) = bl ! j"
proof (induction bl arbitrary: j)
  case Nil
  then show ?case by simp
next
  case (Cons b bl)
  show ?case
  proof (cases j)
    case 0
    then show ?thesis
      using Cons.prems by simp
  next
    case (Suc j')
    then have "take n (drop (n * j) (concat (b # bl))) = take n (drop (n * j') (concat bl))"
      using Cons.prems by simp
    then show ?thesis
      using Cons.IH [of j'] Cons.prems Suc by simp
  qed
qed

lemma length_concat_blocks:
  "\<forall>b\<in>set bl. length b = n \<Longrightarrow> length (concat bl) = n * length bl"
  by (induction bl) simp_all

lemma kf_cbc_chain_nth:
  "j < length bs \<Longrightarrow>
   kf_cbc_chain bo ctx key bs ! j =
     kf_block_val bo ctx (xor4 (words_of_bytes bo (bs ! j)) ((key # kf_cbc_chain bo ctx key bs) ! j))"
proof (induction bs arbitrary: key j)
  case Nil
  then show ?case by simp
next
  case (Cons b bs)
  show ?case
  proof (cases j)
    case 0
    then show ?thesis by simp
  next
    case (Suc j')
    then show ?thesis
      using Cons.IH [of j'] Cons.prems by simp
  qed
qed

lemma concat_file_blocks:
  "concat (map (\<lambda>j. take n (drop (n * j) xs)) [0..<k]) = take (n * k) xs"
proof (induction k)
  case 0
  then show ?case by simp
next
  case (Suc k)
  have "take (n * k) xs @ take n (drop (n * k) xs) = take (n * k + n) xs"
    by (simp add: take_add)
  also have "n * k + n = n + n * k"
    by simp
  finally show ?case
    using Suc by simp
qed

lemma kf_plain_blocks_concat:
  "concat (map (kf_plain_block infile padding) [0..<length infile div BLOCK_SIZE]) =
     take (BLOCK_SIZE * (length infile div BLOCK_SIZE)) infile"
proof -
  have "map (kf_plain_block infile padding) [0..<length infile div BLOCK_SIZE] =
      map (\<lambda>j. take BLOCK_SIZE (drop (BLOCK_SIZE * j) infile)) [0..<length infile div BLOCK_SIZE]"
    by (rule map_cong) (simp_all add: kf_plain_block_def)
  then show ?thesis
    by (simp only: concat_file_blocks)
qed

lemma kf_plain_block_final:
  assumes "BLOCK_SIZE \<le> length padding"
  shows "unat (kf_plain_block infile padding (length infile div BLOCK_SIZE) ! (BLOCK_SIZE - 1))
           = length infile mod BLOCK_SIZE"
    and "take (length infile mod BLOCK_SIZE)
           (kf_plain_block infile padding (length infile div BLOCK_SIZE))
           = drop (BLOCK_SIZE * (length infile div BLOCK_SIZE)) infile"
proof -
  define q where "q = length infile div BLOCK_SIZE"
  define r where "r = length infile mod BLOCK_SIZE"
  have r: "r < 16"
    by (simp add: r_def BLOCK_SIZE_def)
  have ld: "length (drop (BLOCK_SIZE * q) infile) = r"
    by (simp add: q_def r_def minus_mult_div_eq_mod)
  have ur: "unat (word_of_nat r :: u8) = r"
    using r by (simp add: unat_of_nat)
  show "unat (kf_plain_block infile padding (length infile div BLOCK_SIZE) ! (BLOCK_SIZE - 1))
           = length infile mod BLOCK_SIZE"
  proof (cases "r = 0")
    case True
    then show ?thesis
      by (simp add: kf_plain_block_def r_def BLOCK_SIZE_def)
  next
    case False
    have "length (drop (BLOCK_SIZE * q) infile @ drop r (take BLOCK_SIZE padding)) = 16"
      using ld assms r by (simp add: BLOCK_SIZE_def)
    then show ?thesis
      using False ur unfolding kf_plain_block_def q_def [symmetric] r_def [symmetric]
      by (simp add: BLOCK_SIZE_def)
  qed
  show "take (length infile mod BLOCK_SIZE)
           (kf_plain_block infile padding (length infile div BLOCK_SIZE))
           = drop (BLOCK_SIZE * (length infile div BLOCK_SIZE)) infile"
  proof (cases "r = 0")
    case True
    then show ?thesis
      using ld by (simp add: r_def [symmetric] q_def [symmetric])
  next
    case False
    then show ?thesis
      using ld r unfolding kf_plain_block_def q_def [symmetric] r_def [symmetric]
      by (simp add: BLOCK_SIZE_def)
  qed
qed

section \<open>Decryption after encryption\<close>

lemma kf_cbc_round_trip:
  assumes e: "kf_expand_passphrase passphrase kf_ctx_decl = Inr ctx"
    and iv: "BLOCK_SIZE \<le> length iv"
    and pad: "BLOCK_SIZE \<le> length padding"
  shows "\<exists>ct. kf_encrypt_file_cbc bo infile passphrase iv padding = Inr ct
     \<and> length ct = BLOCK_SIZE * (length infile div BLOCK_SIZE + 2)
     \<and> (\<forall>j\<le>length infile div BLOCK_SIZE.
           kf_recovered_block bo (kf_invert_ctx ctx) ct j = kf_plain_block infile padding j)
     \<and> kf_decrypt_file_cbc bo ct passphrase = Inr infile"
proof -
  define q where "q = length infile div BLOCK_SIZE"
  define key0 where "key0 = words_of_bytes bo (take BLOCK_SIZE iv)"
  define bl where "bl = map (kf_plain_block infile padding) [0..<q + 1]"
  define cs where "cs = kf_cbc_chain bo ctx key0 bl"
  define ct where "ct = take BLOCK_SIZE iv @ concat (map (bytes_of_words bo) cs)"
  define inv_ctx where "inv_ctx = kf_invert_ctx ctx"
  have ok: "kf_pbox_ok ctx"
    using kf_expand_passphrase_pbox_ok [OF kf_ctx_decl_pbox e] .
  have enc: "kf_encrypt_file_cbc bo infile passphrase iv padding = Inr ct"
    unfolding ct_def cs_def bl_def key0_def q_def
    by (rule kf_encrypt_file_cbc_chain [OF e iv pad])
  have bl16: "\<forall>b\<in>set bl. length b = BLOCK_SIZE"
    unfolding bl_def by (rule kf_plain_blocks_lengths [OF pad]) (simp add: q_def)
  have lbl: "length bl = q + 1"
    by (simp add: bl_def)
  have lk: "length key0 = 4"
    using iv by (simp add: key0_def length_words_of_bytes BLOCK_SIZE_def)
  have lcs: "\<forall>c\<in>set cs. length c = 4"
    unfolding cs_def by (rule kf_cbc_chain_lengths [OF ok bl16])
  have ncs: "length cs = q + 1"
    by (simp add: cs_def lbl)
  have "4 dvd length (take BLOCK_SIZE iv)"
    using iv by (simp add: BLOCK_SIZE_def)
  then have bk: "bytes_of_words bo key0 = take BLOCK_SIZE iv"
    unfolding key0_def by (rule bytes_of_words_of_bytes)
  have cc: "ct = concat (map (bytes_of_words bo) (key0 # cs))"
    by (simp add: ct_def bk)
  have all4: "\<forall>c\<in>set (key0 # cs). length c = 4"
    using lk lcs by simp
  then have all16: "\<forall>b\<in>set (map (bytes_of_words bo) (key0 # cs)). length b = BLOCK_SIZE"
    by (simp add: BLOCK_SIZE_def)
  have len: "length ct = BLOCK_SIZE * (q + 2)"
    unfolding cc using length_concat_blocks [OF all16] by (simp add: ncs)
  have blk: "take BLOCK_SIZE (drop (BLOCK_SIZE * j) ct) = bytes_of_words bo ((key0 # cs) ! j)"
    if "j < q + 2" for j
  proof -
    have jl: "j < length (key0 # cs)"
      using that by (simp add: ncs)
    then have "j < length (map (bytes_of_words bo) (key0 # cs))"
      by simp
    from concat_block_nth [OF all16 this]
    have "take BLOCK_SIZE (drop (BLOCK_SIZE * j) (concat (map (bytes_of_words bo) (key0 # cs))))
        = map (bytes_of_words bo) (key0 # cs) ! j" .
    also have "\<dots> = bytes_of_words bo ((key0 # cs) ! j)"
      using jl by (rule nth_map)
    finally show ?thesis
      unfolding cc .
  qed
  have rec: "kf_recovered_block bo inv_ctx ct j = kf_plain_block infile padding j"
    if j: "j \<le> q" for j
  proof -
    define K where "K = (key0 # cs) ! j"
    define W where "W = words_of_bytes bo (bl ! j)"
    have pj: "bl ! j = kf_plain_block infile padding j"
      using j by (simp add: bl_def del: upt_Suc)
    have lpj: "length (kf_plain_block infile padding j) = BLOCK_SIZE"
      using length_kf_plain_block [OF pad] j by (simp add: q_def)
    have lW: "length W = 4"
      using lpj by (simp add: W_def pj length_words_of_bytes BLOCK_SIZE_def)
    have "K \<in> set (key0 # cs)"
      unfolding K_def using j by (intro nth_mem) (simp add: ncs)
    then have lK: "length K = 4"
      using all4 by blast
    have cj: "cs ! j = kf_block_val bo ctx (xor4 W K)"
      unfolding cs_def W_def K_def using kf_cbc_chain_nth [of j bl bo ctx key0] j lbl by simp
    have "kf_recovered_block bo inv_ctx ct j =
        bytes_of_words bo (xor4 (kf_block_val bo inv_ctx (cs ! j)) K)"
      unfolding kf_recovered_block_def using blk [of j] blk [of "j + 1"] j by (simp add: K_def)
    also have "kf_block_val bo inv_ctx (cs ! j) = xor4 W K"
      unfolding cj inv_ctx_def by (rule kf_block_val_invert [OF ok]) (simp add: lW)
    also have "xor4 (xor4 W K) K = W"
      by (rule xor4_twice [OF lW]) simp
    also have "bytes_of_words bo W = kf_plain_block infile padding j"
      unfolding W_def pj by (rule bytes_of_words_of_bytes) (simp add: lpj BLOCK_SIZE_def)
    finally show ?thesis .
  qed
  have l2: "2 * BLOCK_SIZE \<le> length ct"
    by (simp add: len)
  have n: "length ct div BLOCK_SIZE - 1 = q + 1"
    by (simp add: len BLOCK_SIZE_def)
  have r: "unat (kf_plain_block infile padding q ! (BLOCK_SIZE - 1)) = length infile mod BLOCK_SIZE"
    unfolding q_def by (rule kf_plain_block_final(1) [OF pad])
  have rle: "\<not> length infile mod BLOCK_SIZE > BLOCK_SIZE"
    by (simp add: BLOCK_SIZE_def)
  have m: "map (kf_recovered_block bo inv_ctx ct) [0..<q] = map (kf_plain_block infile padding) [0..<q]"
    by (rule map_cong) (simp_all add: rec)
  have "kf_decrypt_file_cbc bo ct passphrase =
      Inr (concat (map (kf_plain_block infile padding) [0..<q])
        @ take (length infile mod BLOCK_SIZE) (kf_plain_block infile padding q))"
    unfolding kf_decrypt_file_cbc_emit [OF e l2] Let_def n inv_ctx_def [symmetric]
    using rle r by (simp add: rec m)
  also have "\<dots> = Inr infile"
    unfolding q_def kf_plain_blocks_concat kf_plain_block_final(2) [OF pad] by simp
  finally have dec: "kf_decrypt_file_cbc bo ct passphrase = Inr infile" .
  show ?thesis
    using enc len rec dec unfolding q_def inv_ctx_def by blast
qed

section \<open>The context of the passphrase test\<close>

lemma kf_lfsr_zero: "kf_lfsr 0 = 0"
  by (simp add: kf_lfsr_def)

lemma kf_lfsr_loop_zero: "kf_lfsr_loop n i 0 = 0"
proof (induction "n - i" arbitrary: i)
  case 0
  then show ?case
    by (simp add: kf_lfsr_loop.simps)
next
  case (Suc k)
  then have "k = n - (i + 1)" "i < n"
    by simp_all
  then show ?case
    using Suc.hyps(1) [of "i + 1"] by (subst kf_lfsr_loop.simps) (simp add: kf_lfsr_zero)
qed

lemma kf_lfsr_byte_zero: "kf_lfsr_byte 0 = (0, 0)"
  by (simp add: kf_lfsr_byte_def kf_lfsr_loop_zero)

lemma kf_mix_key_zero: "kf_mix_key j key 0 = (key, 0)"
proof (induction "KEY_SIZE - j" arbitrary: j)
  case 0
  then show ?case
    by (simp add: kf_mix_key.simps)
next
  case (Suc k)
  then have "k = KEY_SIZE - (j + 1)" "j < KEY_SIZE"
    by simp_all
  then show ?case
    using Suc.hyps(1) [of "j + 1"] by (subst kf_mix_key.simps) (simp add: kf_lfsr_loop_zero)
qed

lemma kf_init_box_loop_zero_seed:
  "i \<le> n \<Longrightarrow> length s = n \<Longrightarrow> length idx = n \<Longrightarrow> take i s = map word_of_nat [0..<i] \<Longrightarrow>
   take (n - i) idx = map word_of_nat [i..<n] \<Longrightarrow>
   kf_init_box_loop n i s idx 0 = map word_of_nat [0..<n]"
proof (induction "n - i" arbitrary: i s idx)
  case 0
  then show ?case
    by (simp add: kf_init_box_loop.simps)
next
  case (Suc k)
  then have lt: "i < n" and k: "k = n - (i + 1)"
    by simp_all
  define s' where "s' = s[i := idx ! 0]"
  define idx' where "idx' = memmove_list idx 0 (0 + 1) (n - 0 - 1)"
  have unf: "kf_init_box_loop n i s idx 0 = kf_init_box_loop n (i + 1) s' idx' 0"
    using lt by (subst kf_init_box_loop.simps) (simp add: kf_lfsr_byte_zero s'_def idx'_def)
  have "idx ! 0 = take (n - i) idx ! 0"
    using lt by simp
  also have "\<dots> = word_of_nat i"
    unfolding Suc.prems(5) using lt by simp
  finally have i0: "idx ! 0 = word_of_nat i" .
  have ts: "take (i + 1) s' = map word_of_nat [0..<i + 1]"
    using lt Suc.prems(2,4) by (simp add: s'_def take_Suc_conv_app_nth i0)
  have ix: "idx' = drop 1 idx @ drop (n - 1) idx"
    using Suc.prems(3) by (simp add: idx'_def memmove_list_def)
  have li: "length idx' = n"
    using lt Suc.prems(3) by (simp add: ix)
  have "take (n - (i + 1)) idx' = take (n - (i + 1)) (drop 1 idx)"
    using Suc.prems(3) by (simp add: ix)
  also have "\<dots> = drop 1 (take (n - i) idx)"
    using lt by (simp add: drop_take)
  also have "\<dots> = map word_of_nat [i + 1..<n]"
    unfolding Suc.prems(5) by (simp add: drop_map)
  finally have ti: "take (n - (i + 1)) idx' = map word_of_nat [i + 1..<n]" .
  have ls: "length s' = n"
    using Suc.prems(2) by (simp add: s'_def)
  show ?case
    unfolding unf using Suc.hyps(1) [OF k _ ls li ts ti] lt by simp
qed

lemma kf_init_sbox_zero_seed:
  "length s = SBOX_SIZE \<Longrightarrow> kf_init_sbox s 0 = map word_of_nat [0..<256]"
  unfolding kf_init_sbox_def SBOX_SIZE_def
  by (rule kf_init_box_loop_zero_seed) simp_all

lemma kf_init_pbox_zero_seed:
  "length p = PBOX_SIZE \<Longrightarrow> kf_init_pbox p 0 = map word_of_nat [0..<8]"
  unfolding kf_init_pbox_def PBOX_SIZE_def
  by (rule kf_init_box_loop_zero_seed) simp_all

lemma kf_expand_passphrase_key_test:
  "kf_expand_passphrase_key [0x74, 0x65, 0x73, 0x74] = Inr (replicate KEY_SIZE 0)"
proof -
  have b: "kf_chunk_bound 4 = 0"
    by (simp add: kf_chunk_bound_ge4)
  have l: "kf_last_loop mem 4 0 last_buf = Inr last_buf" for mem last_buf
    by (simp add: kf_last_loop_done)
  show ?thesis
    unfolding kf_expand_passphrase_key_def Let_def strlen_test
    by (simp add: b kf_chunk_loop_done l kf_load_register_eq kf_mix_key_zero)
qed

lemma kf_expand_passphrase_test:
  "kf_expand_passphrase [0x74, 0x65, 0x73, 0x74] kf_ctx_decl = Inr kf_ctx_test"
proof -
  have z: "replicate KEY_SIZE (0 :: u32) ! k = 0" if "k < 49" for k
    using that by (simp add: KEY_SIZE_def SBOX_COUNT_def ROUNDS_def WKEY_COUNT_def)
  have sb: "map (\<lambda>i. kf_init_sbox (sbox kf_ctx_decl ! i) (replicate KEY_SIZE 0 ! i)) [0..<SBOX_COUNT]
      = replicate 8 (map word_of_nat [0..<256])"
    by (rule nth_equalityI)
      (simp_all add: SBOX_COUNT_def z kf_ctx_decl_def kf_init_sbox_zero_seed)
  have pb: "kf_init_pbox (pbox kf_ctx_decl) (replicate KEY_SIZE 0 ! SBOX_COUNT) = map word_of_nat [0..<8]"
    by (simp add: SBOX_COUNT_def z kf_ctx_decl_def kf_init_pbox_zero_seed)
  have sk: "map (\<lambda>i. [replicate KEY_SIZE (0 :: u32) ! (SBOX_COUNT + 1 + 2 * i),
        replicate KEY_SIZE 0 ! (SBOX_COUNT + 1 + 2 * i + 1)]) [0..<ROUNDS] = replicate 16 [0, 0]"
    by (rule nth_equalityI) (simp_all add: SBOX_COUNT_def ROUNDS_def z)
  have wk: "map (\<lambda>i. [replicate KEY_SIZE (0 :: u32) ! (SBOX_COUNT + 1 + 2 * ROUNDS + 4 * i),
        replicate KEY_SIZE 0 ! (SBOX_COUNT + 1 + 2 * ROUNDS + 4 * i + 1),
        replicate KEY_SIZE 0 ! (SBOX_COUNT + 1 + 2 * ROUNDS + 4 * i + 2),
        replicate KEY_SIZE 0 ! (SBOX_COUNT + 1 + 2 * ROUNDS + 4 * i + 3)]) [0..<WKEY_COUNT]
      = replicate 2 [0, 0, 0, 0]"
    by (rule nth_equalityI) (simp_all add: SBOX_COUNT_def ROUNDS_def WKEY_COUNT_def z)
  have "kf_expand_passphrase [0x74, 0x65, 0x73, 0x74] kf_ctx_decl =
      Inr (kf_expand_passphrase_ctx (replicate KEY_SIZE 0) kf_ctx_decl)"
    by (simp add: kf_expand_passphrase_def kf_expand_passphrase_key_test)
  also have "kf_expand_passphrase_ctx (replicate KEY_SIZE 0) kf_ctx_decl = kf_ctx_test"
    unfolding kf_expand_passphrase_ctx_def sb pb sk wk kf_ctx_test_def ..
  finally show ?thesis .
qed

section \<open>The block function under the context of the passphrase test\<close>

lemma kf_ctx_test_boxes:
  "i < 8 \<Longrightarrow> unat (pbox kf_ctx_test ! i) = i"
  "i < 8 \<Longrightarrow> sbox kf_ctx_test ! i ! unat (b :: u8) = b"
proof -
  show "unat (pbox kf_ctx_test ! i) = i" if "i < 8"
    using that by (simp add: kf_ctx_test_def unat_of_nat)
  have "unat b < 256"
    using unsigned_less [of b] by simp
  then show "sbox kf_ctx_test ! i ! unat b = b" if "i < 8"
    using that by (simp add: kf_ctx_test_def)
qed

lemma kf_f_loop_test:
  "length in8 = 8 \<Longrightarrow> length out8 = 8 \<Longrightarrow> i \<le> 8 \<Longrightarrow>
   kf_f_loop in8 i kf_ctx_test out8 = Inr (take i out8 @ map Some (drop i in8))"
proof (induction "8 - i" arbitrary: i out8)
  case 0
  then show ?case
    by (simp add: kf_f_loop.simps SBOX_COUNT_def)
next
  case (Suc k)
  then have lt: "i < 8" and k: "k = 8 - (i + 1)"
    by simp_all
  have unf: "kf_f_loop in8 i kf_ctx_test out8 =
      kf_f_loop in8 (i + 1) kf_ctx_test (out8[i := Some (in8 ! i)])"
    using lt Suc.prems(2)
    by (subst kf_f_loop.simps) (simp add: SBOX_COUNT_def kf_ctx_test_boxes)
  have "take (i + 1) (out8[i := Some (in8 ! i)]) @ map Some (drop (i + 1) in8) =
      take i out8 @ Some (in8 ! i) # map Some (drop (Suc i) in8)"
    using lt Suc.prems(2) by (simp add: take_Suc_conv_app_nth)
  also have "Some (in8 ! i) # map Some (drop (Suc i) in8) = map Some (drop i in8)"
    using lt Suc.prems(1) by (simp add: Cons_nth_drop_Suc [symmetric])
  finally show ?case
    unfolding unf using Suc.hyps(1) [OF k, of "out8[i := Some (in8 ! i)]"] Suc.prems lt by simp
qed

lemma kf_pht_in_place_Suc: "kf_pht [a, b] 0 (Suc 0) 0 (Suc 0) = [a + b, a + 2 * b]"
  by (simp add: kf_pht_def Let_def pht_mod_id)

lemma kf_f_val_test:
  assumes "r < 16"
  shows "kf_f_val bo kf_ctx_test r [c, d] = [c + d, c + 2 * d]"
proof -
  have l: "length (bytes_of_words bo [c, d]) = 8"
    by simp
  have loop: "kf_f_loop (bytes_of_words bo [c, d]) 0 kf_ctx_test (replicate 8 None) =
      Inr (map Some (bytes_of_words bo [c, d]))"
    using kf_f_loop_test [OF l, of "replicate 8 None" 0] by simp
  have a: "list_all (\<lambda>b. b \<noteq> None) (map Some (bytes_of_words bo [c, d]))"
    by (simp add: list_all_iff)
  have m: "map the (map Some (bytes_of_words bo [c, d])) = bytes_of_words bo [c, d]"
    by (simp add: comp_def)
  have sk: "skey kf_ctx_test ! r = [0, 0]"
    using assms by (simp add: kf_ctx_test_def)
  show ?thesis
    unfolding kf_f_val_def kf_f_def loop
    using a by (simp add: m kf_pht_in_place_Suc sk Let_def)
qed

lemma kf_pbox_ok_test: "kf_pbox_ok kf_ctx_test"
  using kf_expand_passphrase_pbox_ok [OF kf_ctx_decl_pbox kf_expand_passphrase_test] .

lemma feistel_step_test:
  assumes "r < 16"
  shows "feistel_step (kf_f_val bo kf_ctx_test r) [a, b, c, d] =
      [c, d, (c + d) XOR a, (c + 2 * d) XOR b]"
    and "feistel_step (kf_f_val bo (kf_invert_ctx kf_ctx_test) r) [a, b, c, d] =
      [c, d, (c + d) XOR a, (c + 2 * d) XOR b]"
proof -
  have "ROUNDS - 1 - r < 16"
    by (simp add: ROUNDS_def)
  then show "feistel_step (kf_f_val bo (kf_invert_ctx kf_ctx_test) r) [a, b, c, d] =
      [c, d, (c + d) XOR a, (c + 2 * d) XOR b]"
    using assms by (simp add: feistel_step_def kf_f_val_invert ROUNDS_def kf_f_val_test)
  show "feistel_step (kf_f_val bo kf_ctx_test r) [a, b, c, d] =
      [c, d, (c + d) XOR a, (c + 2 * d) XOR b]"
    using assms by (simp add: feistel_step_def kf_f_val_test)
qed

lemma upt_16: "[0..<ROUNDS] = [0, 1, 2, 3, 4, 5, 6, 7, 8, 9, 10, 11, 12, 13, 14, 15]"
  by (simp add: ROUNDS_def upt_rec)

lemma wkey_test:
  "wkey kf_ctx_test ! 0 = [0, 0, 0, 0]"
  "wkey kf_ctx_test ! Suc 0 = [0, 0, 0, 0]"
  "wkey (kf_invert_ctx kf_ctx_test) = [[0, 0, 0, 0], [0, 0, 0, 0]]"
  by (simp_all add: kf_ctx_test_def kf_invert_ctx_def upt_rec numeral_2_eq_2)

lemma kf_pbox_ok_test_inv: "kf_pbox_ok (kf_invert_ctx kf_ctx_test)"
  using kf_pbox_ok_test by (simp add: kf_pbox_ok_invert)

section \<open>The scenario of five bytes under the passphrase test\<close>

lemmas kf_test_eval =
  kf_block_total(2) kf_pbox_ok_test kf_pbox_ok_test_inv upt_16 feistel_step_test wkey_test
  xor4_def swap_halves_def BLOCK_SIZE_def bytes_of_words_def bytes_of_u32_def u32_of_bytes_def

lemma kf_encrypt_five_bytes:
  "kf_encrypt_file_cbc LittleEndian [1, 2, 3, 4, 5] [0x74, 0x65, 0x73, 0x74]
     [0, 0, 0, 0, 0, 0, 0, 0, 0, 0, 0, 0, 0, 0, 0, 0]
     [0xAA, 0xAA, 0xAA, 0xAA, 0xAA, 0xAA, 0xAA, 0xAA, 0xAA, 0xAA, 0xAA, 0xAA, 0xAA, 0xAA, 0xAA, 0xAA]
   = Inr [0, 0, 0, 0, 0, 0, 0, 0, 0, 0, 0, 0, 0, 0, 0, 0,
          243, 36, 54, 185, 155, 47, 51, 66, 90, 36, 113, 20, 202, 45, 213, 187]"
proof -
  have iv: "BLOCK_SIZE \<le> length [0, 0, 0, 0, 0, 0, 0, 0, 0, 0, 0, 0, 0, 0, 0, 0 :: u8]"
    by (simp add: BLOCK_SIZE_def)
  have pad: "BLOCK_SIZE \<le> length [0xAA, 0xAA, 0xAA, 0xAA, 0xAA, 0xAA, 0xAA, 0xAA, 0xAA, 0xAA,
      0xAA, 0xAA, 0xAA, 0xAA, 0xAA, 0xAA :: u8]"
    by (simp add: BLOCK_SIZE_def)
  have pb: "kf_plain_block [1, 2, 3, 4, 5]
      [0xAA, 0xAA, 0xAA, 0xAA, 0xAA, 0xAA, 0xAA, 0xAA, 0xAA, 0xAA, 0xAA, 0xAA, 0xAA, 0xAA, 0xAA, 0xAA] 0
      = [1, 2, 3, 4, 5, 0xAA, 0xAA, 0xAA, 0xAA, 0xAA, 0xAA, 0xAA, 0xAA, 0xAA, 0xAA, 5]"
    by (simp add: kf_plain_block_def BLOCK_SIZE_def)
  have u: "[0..<length [1, 2, 3, 4, 5 :: u8] div BLOCK_SIZE + 1] = [0]"
    by (simp add: BLOCK_SIZE_def)
  show ?thesis
    unfolding kf_encrypt_file_cbc_chain [OF kf_expand_passphrase_test iv pad] u
    by (simp add: pb) (simp add: kf_test_eval)
qed

lemma kf_recovered_five_bytes:
  "kf_recovered_block LittleEndian (kf_invert_ctx kf_ctx_test)
     [0, 0, 0, 0, 0, 0, 0, 0, 0, 0, 0, 0, 0, 0, 0, 0,
      243, 36, 54, 185, 155, 47, 51, 66, 90, 36, 113, 20, 202, 45, 213, 187] 0
   = [1, 2, 3, 4, 5, 0xAA, 0xAA, 0xAA, 0xAA, 0xAA, 0xAA, 0xAA, 0xAA, 0xAA, 0xAA, 5]"
  by (simp add: kf_recovered_block_def BLOCK_SIZE_def) (simp add: kf_test_eval)

lemma kf_recovered_length_16:
  "kf_recovered_block LittleEndian (kf_invert_ctx kf_ctx_test)
     [0, 0, 0, 0, 0, 0, 0, 0, 0, 0, 0, 0, 0, 0, 0, 0,
      33, 115, 74, 59, 82, 246, 24, 194, 215, 145, 170, 144, 51, 179, 77, 155] 0
   = [0x41, 0x41, 0x41, 0x41, 0x41, 0x41, 0x41, 0x41, 0x41, 0x41, 0x41, 0x41, 0x41, 0x41, 0x41, 16]"
  by (simp add: kf_recovered_block_def BLOCK_SIZE_def) (simp add: kf_test_eval)

lemma kf_recovered_length_200:
  "kf_recovered_block LittleEndian (kf_invert_ctx kf_ctx_test)
     [0, 0, 0, 0, 0, 0, 0, 0, 0, 0, 0, 0, 0, 0, 0, 0,
      33, 115, 74, 67, 82, 246, 24, 34, 215, 145, 170, 112, 51, 179, 77, 195] 0
   = [0x41, 0x41, 0x41, 0x41, 0x41, 0x41, 0x41, 0x41, 0x41, 0x41, 0x41, 0x41, 0x41, 0x41, 0x41, 200]"
  by (simp add: kf_recovered_block_def BLOCK_SIZE_def) (simp add: kf_test_eval)

text \<open>
  C7, as the specification states it: for the passphrase \<open>test\<close>, a zero initialization
  vector and the plaintext \<open>01 02 03 04 05\<close> the ciphertext stream has three blocks. With
  the padding \<open>AA ... AA\<close> on a little-endian host the stream has two blocks, the
  initialization vector and one cipher block: the partial block carries its own length
  byte and no further block follows it.
\<close>

theorem kf_encrypt_five_bytes_two_blocks:
  "kf_encrypt_file_cbc LittleEndian [1, 2, 3, 4, 5] [0x74, 0x65, 0x73, 0x74]
     [0, 0, 0, 0, 0, 0, 0, 0, 0, 0, 0, 0, 0, 0, 0, 0]
     [0xAA, 0xAA, 0xAA, 0xAA, 0xAA, 0xAA, 0xAA, 0xAA, 0xAA, 0xAA, 0xAA, 0xAA, 0xAA, 0xAA, 0xAA, 0xAA]
   = Inr [0, 0, 0, 0, 0, 0, 0, 0, 0, 0, 0, 0, 0, 0, 0, 0,
          243, 36, 54, 185, 155, 47, 51, 66, 90, 36, 113, 20, 202, 45, 213, 187]
   \<and> length [0, 0, 0, 0, 0, 0, 0, 0, 0, 0, 0, 0, 0, 0, 0, 0,
          243, 36, 54, 185, 155, 47, 51, 66, 90, 36, 113, 20, 202, 45, 213, 187 :: u8]
       = 2 * BLOCK_SIZE"
  using kf_encrypt_five_bytes by (simp add: BLOCK_SIZE_def)

text \<open>
  C7, amended. With the passphrase \<open>test\<close>, an initialization vector of 16 zero bytes, any
  padding of at least 16 bytes and the plaintext \<open>01 02 03 04 05\<close>, on a host of either
  byte order, \<^verbatim>\<open>kf_encrypt_file_cbc\<close> produces a stream of exactly 2 blocks (32 bytes: the
  initialization vector and one cipher block), \<^verbatim>\<open>kf_decrypt_file_cbc\<close> recovers exactly
  the 5 bytes from it, and the last byte of the block it recovers is 5.
\<close>

theorem kf_cbc_five_bytes_scenario:
  assumes "BLOCK_SIZE \<le> length padding"
  shows "kf_expand_passphrase [0x74, 0x65, 0x73, 0x74] kf_ctx_decl = Inr kf_ctx_test
     \<and> (\<exists>ct. kf_encrypt_file_cbc bo [1, 2, 3, 4, 5] [0x74, 0x65, 0x73, 0x74]
                 [0, 0, 0, 0, 0, 0, 0, 0, 0, 0, 0, 0, 0, 0, 0, 0] padding = Inr ct
            \<and> length ct = 2 * BLOCK_SIZE
            \<and> kf_decrypt_file_cbc bo ct [0x74, 0x65, 0x73, 0x74] = Inr [1, 2, 3, 4, 5]
            \<and> kf_recovered_block bo (kf_invert_ctx kf_ctx_test) ct 0 ! (BLOCK_SIZE - 1) = 5)"
proof -
  have iv: "BLOCK_SIZE \<le> length [0, 0, 0, 0, 0, 0, 0, 0, 0, 0, 0, 0, 0, 0, 0, 0 :: u8]"
    by (simp add: BLOCK_SIZE_def)
  have q: "length [1, 2, 3, 4, 5 :: u8] div BLOCK_SIZE = 0"
    by (simp add: BLOCK_SIZE_def)
  from kf_cbc_round_trip [OF kf_expand_passphrase_test iv assms, of bo "[1, 2, 3, 4, 5]"]
  obtain ct where
    enc: "kf_encrypt_file_cbc bo [1, 2, 3, 4, 5] [0x74, 0x65, 0x73, 0x74]
            [0, 0, 0, 0, 0, 0, 0, 0, 0, 0, 0, 0, 0, 0, 0, 0] padding = Inr ct"
    and len: "length ct = BLOCK_SIZE * (length [1, 2, 3, 4, 5 :: u8] div BLOCK_SIZE + 2)"
    and rec: "\<forall>j\<le>length [1, 2, 3, 4, 5 :: u8] div BLOCK_SIZE.
        kf_recovered_block bo (kf_invert_ctx kf_ctx_test) ct j = kf_plain_block [1, 2, 3, 4, 5] padding j"
    and dec: "kf_decrypt_file_cbc bo ct [0x74, 0x65, 0x73, 0x74] = Inr [1, 2, 3, 4, 5]"
    by blast
  have r0: "kf_recovered_block bo (kf_invert_ctx kf_ctx_test) ct 0 = kf_plain_block [1, 2, 3, 4, 5] padding 0"
    using rec by simp
  have "unat (kf_plain_block [1, 2, 3, 4, 5] padding 0 ! (BLOCK_SIZE - 1)) = 5"
    using kf_plain_block_final(1) [OF assms, of "[1, 2, 3, 4, 5]"] by (simp add: BLOCK_SIZE_def)
  then have "kf_plain_block [1, 2, 3, 4, 5] padding 0 ! (BLOCK_SIZE - 1) = 5"
    by (simp add: word_unat_eq_iff)
  with enc len [unfolded q] dec r0 kf_expand_passphrase_test show ?thesis
    by simp
qed

theorem kf_cbc_five_bytes_scenario_witness:
  "BLOCK_SIZE \<le> length (replicate 16 (0xAA :: u8))
   \<and> kf_expand_passphrase [0x74, 0x65, 0x73, 0x74] kf_ctx_decl = Inr kf_ctx_test
   \<and> (\<exists>ct. kf_encrypt_file_cbc LittleEndian [1, 2, 3, 4, 5] [0x74, 0x65, 0x73, 0x74]
               [0, 0, 0, 0, 0, 0, 0, 0, 0, 0, 0, 0, 0, 0, 0, 0] (replicate 16 0xAA) = Inr ct
          \<and> length ct = 2 * BLOCK_SIZE
          \<and> kf_decrypt_file_cbc LittleEndian ct [0x74, 0x65, 0x73, 0x74] = Inr [1, 2, 3, 4, 5]
          \<and> kf_recovered_block LittleEndian (kf_invert_ctx kf_ctx_test) ct 0 ! (BLOCK_SIZE - 1) = 5)"
proof -
  have p: "BLOCK_SIZE \<le> length (replicate 16 (0xAA :: u8))"
    by (simp add: BLOCK_SIZE_def)
  from p kf_cbc_five_bytes_scenario [OF p, of LittleEndian] show ?thesis
    by blast
qed

section \<open>Decryption does not check the length byte; short passphrases\<close>

lemma kf_decrypt_file_cbc_short_stream:
  assumes e: "kf_expand_passphrase passphrase kf_ctx_decl = Inr ctx"
    and len: "length infile < 2 * BLOCK_SIZE"
  shows "kf_decrypt_file_cbc bo infile passphrase = Inr []"
proof -
  have "length infile div BLOCK_SIZE \<le> 1"
    using len by (simp add: BLOCK_SIZE_def)
  then have "int (length infile) div int BLOCK_SIZE \<le> 1"
    by (simp add: zdiv_int [symmetric])
  then have d: "\<not> int 0 < int (length infile) div int BLOCK_SIZE - 1"
    by simp
  show ?thesis
    unfolding kf_decrypt_file_cbc_def e Let_def
    by (simp add: kf_decrypt_loop_done [OF d])
qed

lemma xor4_zero: "length x = 4 \<Longrightarrow> xor4 x [0, 0, 0, 0] = x"
  using list4 [of x] by (auto simp: xor4_def Let_def)

lemma kf_recovered_block_of_enciphered:
  assumes ok: "kf_pbox_ok ctx" and p: "length p = BLOCK_SIZE"
  shows "kf_recovered_block bo (kf_invert_ctx ctx)
           (replicate BLOCK_SIZE 0 @ bytes_of_words bo (kf_block_val bo ctx (words_of_bytes bo p))) 0
         = p"
proof -
  define W where "W = words_of_bytes bo p"
  define C where "C = kf_block_val bo ctx W"
  have lW: "length W = 4"
    using p by (simp add: W_def length_words_of_bytes BLOCK_SIZE_def)
  then have "4 \<le> length W"
    by simp
  from kf_block_total(3) [OF ok this] have lC: "length C = 4"
    by (simp add: C_def)
  have t1: "take BLOCK_SIZE (drop (BLOCK_SIZE * (0 + 1)) (replicate BLOCK_SIZE 0 @ bytes_of_words bo C))
      = bytes_of_words bo C"
    using lC by (simp add: BLOCK_SIZE_def)
  have t0: "take BLOCK_SIZE (drop (BLOCK_SIZE * 0) (replicate BLOCK_SIZE 0 @ bytes_of_words bo C))
      = replicate BLOCK_SIZE 0"
    by simp
  have "kf_recovered_block bo (kf_invert_ctx ctx) (replicate BLOCK_SIZE 0 @ bytes_of_words bo C) 0
      = bytes_of_words bo (xor4 (kf_block_val bo (kf_invert_ctx ctx) C) [0, 0, 0, 0])"
    unfolding kf_recovered_block_def t1 t0 words_of_zero_block by simp
  also have "kf_block_val bo (kf_invert_ctx ctx) C = W"
    unfolding C_def by (rule kf_block_val_invert [OF ok lW])
  also have "xor4 W [0, 0, 0, 0] = W"
    by (rule xor4_zero [OF lW])
  also have "bytes_of_words bo W = p"
    unfolding W_def by (rule bytes_of_words_of_bytes) (simp add: p BLOCK_SIZE_def)
  finally show ?thesis
    unfolding C_def W_def .
qed

lemma kf_length_byte_reachable:
  assumes ok: "kf_pbox_ok ctx"
  shows "\<exists>infile. length infile = 2 * BLOCK_SIZE
     \<and> kf_recovered_block bo (kf_invert_ctx ctx) infile 0 ! (BLOCK_SIZE - 1) = r"
proof -
  define p where "p = replicate (BLOCK_SIZE - 1) (0 :: u8) @ [r]"
  define infile where "infile =
    replicate BLOCK_SIZE 0 @ bytes_of_words bo (kf_block_val bo ctx (words_of_bytes bo p))"
  have lp: "length p = BLOCK_SIZE"
    by (simp add: p_def BLOCK_SIZE_def)
  then have "4 \<le> length (words_of_bytes bo p)"
    by (simp add: length_words_of_bytes BLOCK_SIZE_def)
  from kf_block_total(3) [OF ok this] have l: "length infile = 2 * BLOCK_SIZE"
    by (simp add: infile_def BLOCK_SIZE_def)
  have "kf_recovered_block bo (kf_invert_ctx ctx) infile 0 = p"
    unfolding infile_def by (rule kf_recovered_block_of_enciphered [OF ok lp])
  then have "kf_recovered_block bo (kf_invert_ctx ctx) infile 0 ! (BLOCK_SIZE - 1) = r"
    by (simp add: p_def BLOCK_SIZE_def nth_append)
  with l show ?thesis
    by blast
qed

text \<open>
  C8, as the specification states it: a padding-length byte above 15 in the last recovered
  block makes \<^verbatim>\<open>kf_decrypt_file_cbc\<close> reject the input. For the stream below, under the
  passphrase \<open>test\<close> on a little-endian host, the last recovered block ends in the byte 16;
  the function does not reject it and emits all 16 bytes of the block.
\<close>

theorem kf_decrypt_accepts_length_byte_16:
  "kf_recovered_block LittleEndian (kf_invert_ctx kf_ctx_test)
     [0, 0, 0, 0, 0, 0, 0, 0, 0, 0, 0, 0, 0, 0, 0, 0,
      33, 115, 74, 59, 82, 246, 24, 194, 215, 145, 170, 144, 51, 179, 77, 155] 0 ! 15 = 16
   \<and> kf_decrypt_file_cbc LittleEndian
     [0, 0, 0, 0, 0, 0, 0, 0, 0, 0, 0, 0, 0, 0, 0, 0,
      33, 115, 74, 59, 82, 246, 24, 194, 215, 145, 170, 144, 51, 179, 77, 155]
     [0x74, 0x65, 0x73, 0x74]
   = Inr [0x41, 0x41, 0x41, 0x41, 0x41, 0x41, 0x41, 0x41, 0x41, 0x41, 0x41, 0x41, 0x41, 0x41, 0x41, 16]"
proof -
  have l: "2 * BLOCK_SIZE \<le> length [0, 0, 0, 0, 0, 0, 0, 0, 0, 0, 0, 0, 0, 0, 0, 0,
      33, 115, 74, 59, 82, 246, 24, 194, 215, 145, 170, 144, 51, 179, 77, 155 :: u8]"
    by (simp add: BLOCK_SIZE_def)
  show ?thesis
    unfolding kf_decrypt_file_cbc_emit [OF kf_expand_passphrase_test l]
    by (simp add: Let_def BLOCK_SIZE_def kf_recovered_length_16)
qed

text \<open>
  C8, amended. \<^verbatim>\<open>kf_decrypt_file_cbc\<close> has no check of the padding-length byte and no exit
  that rejects a stream. For every passphrase of at least four bytes the key schedule
  returns a context, and for every stream the outcome is the following. A stream shorter
  than two blocks is accepted and nothing is emitted. Otherwise let \<open>r\<close> be the last byte of
  the last recovered block. If \<open>r\<close> is at most 16 the stream is accepted and the earlier
  recovered blocks are emitted, followed by the first \<open>r\<close> bytes of the last one; for
  \<open>r = 16\<close> that is the whole block. If \<open>r\<close> is 17 or more, \<^verbatim>\<open>fwrite\<close> is asked for \<open>r\<close> bytes of
  the 16-byte array \<open>tmp\<close> and reads past its end, which is undefined in C (the error
  \<open>OutOfBounds\<close> of the model) and not a rejection. Every value of \<open>r\<close> from 0 to 255 is the
  length byte of some stream of two blocks.
\<close>

theorem kf_decrypt_file_cbc_no_length_check:
  assumes "4 \<le> strlen (c_string passphrase)"
  shows "\<exists>ctx. kf_expand_passphrase passphrase kf_ctx_decl = Inr ctx
     \<and> (\<forall>infile. kf_decrypt_file_cbc bo infile passphrase =
          (if length infile < 2 * BLOCK_SIZE then Inr []
           else
             let n = length infile div BLOCK_SIZE - 1;
                 final = kf_recovered_block bo (kf_invert_ctx ctx) infile (n - 1);
                 r = unat (final ! (BLOCK_SIZE - 1))
             in if r \<le> BLOCK_SIZE
                then Inr (concat (map (kf_recovered_block bo (kf_invert_ctx ctx) infile) [0..<n - 1])
                       @ take r final)
                else Inl OutOfBounds))
     \<and> (\<forall>r. \<exists>infile. length infile = 2 * BLOCK_SIZE
            \<and> kf_recovered_block bo (kf_invert_ctx ctx) infile 0 ! (BLOCK_SIZE - 1) = r)"
proof -
  from kf_expand_passphrase_total [OF assms] obtain ctx
    where e: "kf_expand_passphrase passphrase kf_ctx_decl = Inr ctx"
    by blast
  have ok: "kf_pbox_ok ctx"
    using kf_expand_passphrase_pbox_ok [OF kf_ctx_decl_pbox e] .
  have d: "kf_decrypt_file_cbc bo infile passphrase =
          (if length infile < 2 * BLOCK_SIZE then Inr []
           else
             let n = length infile div BLOCK_SIZE - 1;
                 final = kf_recovered_block bo (kf_invert_ctx ctx) infile (n - 1);
                 r = unat (final ! (BLOCK_SIZE - 1))
             in if r \<le> BLOCK_SIZE
                then Inr (concat (map (kf_recovered_block bo (kf_invert_ctx ctx) infile) [0..<n - 1])
                       @ take r final)
                else Inl OutOfBounds)" for infile
  proof (cases "length infile < 2 * BLOCK_SIZE")
    case True
    then show ?thesis
      using kf_decrypt_file_cbc_short_stream [OF e True] by simp
  next
    case False
    then have l: "2 * BLOCK_SIZE \<le> length infile"
      by simp
    show ?thesis
      unfolding kf_decrypt_file_cbc_emit [OF e l] if_not_P [OF False] Let_def
      by (simp add: not_less)
  qed
  have "\<exists>infile. length infile = 2 * BLOCK_SIZE
        \<and> kf_recovered_block bo (kf_invert_ctx ctx) infile 0 ! (BLOCK_SIZE - 1) = r" for r
    by (rule kf_length_byte_reachable [OF ok])
  with e d show ?thesis
    by blast
qed

theorem kf_decrypt_file_cbc_no_length_check_witness:
  "4 \<le> strlen (c_string [0x74, 0x65, 0x73, 0x74])
   \<and> kf_decrypt_file_cbc LittleEndian
        [0, 0, 0, 0, 0, 0, 0, 0, 0, 0, 0, 0, 0, 0, 0, 0,
         243, 36, 54, 185, 155, 47, 51, 66, 90, 36, 113, 20, 202, 45, 213, 187]
        [0x74, 0x65, 0x73, 0x74]
      = Inr [1, 2, 3, 4, 5]
   \<and> kf_recovered_block LittleEndian (kf_invert_ctx kf_ctx_test)
        [0, 0, 0, 0, 0, 0, 0, 0, 0, 0, 0, 0, 0, 0, 0, 0,
         33, 115, 74, 67, 82, 246, 24, 34, 215, 145, 170, 112, 51, 179, 77, 195] 0 ! 15 = 200
   \<and> kf_decrypt_file_cbc LittleEndian
        [0, 0, 0, 0, 0, 0, 0, 0, 0, 0, 0, 0, 0, 0, 0, 0,
         33, 115, 74, 67, 82, 246, 24, 34, 215, 145, 170, 112, 51, 179, 77, 195]
        [0x74, 0x65, 0x73, 0x74]
      = Inl OutOfBounds
   \<and> kf_decrypt_file_cbc LittleEndian [0, 0, 0, 0, 0, 0, 0, 0, 0, 0, 0, 0, 0, 0, 0, 0]
        [0x74, 0x65, 0x73, 0x74]
      = Inr []"
proof -
  have s: "4 \<le> strlen (c_string [0x74, 0x65, 0x73, 0x74])"
    by (simp add: strlen_test)
  from kf_decrypt_file_cbc_no_length_check [OF s, of LittleEndian] obtain ctx
    where e: "kf_expand_passphrase [0x74, 0x65, 0x73, 0x74] kf_ctx_decl = Inr ctx"
      and d: "\<And>infile. kf_decrypt_file_cbc LittleEndian infile [0x74, 0x65, 0x73, 0x74] =
          (if length infile < 2 * BLOCK_SIZE then Inr []
           else
             let n = length infile div BLOCK_SIZE - 1;
                 final = kf_recovered_block LittleEndian (kf_invert_ctx ctx) infile (n - 1);
                 r = unat (final ! (BLOCK_SIZE - 1))
             in if r \<le> BLOCK_SIZE
                then Inr (concat (map (kf_recovered_block LittleEndian (kf_invert_ctx ctx) infile)
                                    [0..<n - 1])
                       @ take r final)
                else Inl OutOfBounds)"
    by blast
  have c: "ctx = kf_ctx_test"
    using e by (simp add: kf_expand_passphrase_test)
  have n: "length [0, 0, 0, 0, 0, 0, 0, 0, 0, 0, 0, 0, 0, 0, 0, 0,
         243, 36, 54, 185, 155, 47, 51, 66, 90, 36, 113, 20, 202, 45, 213, 187 :: u8] div BLOCK_SIZE - 1 - 1 = 0"
    "length [0, 0, 0, 0, 0, 0, 0, 0, 0, 0, 0, 0, 0, 0, 0, 0,
         33, 115, 74, 67, 82, 246, 24, 34, 215, 145, 170, 112, 51, 179, 77, 195 :: u8] div BLOCK_SIZE - 1 - 1 = 0"
    by (simp_all add: BLOCK_SIZE_def)
  have a: "kf_decrypt_file_cbc LittleEndian
        [0, 0, 0, 0, 0, 0, 0, 0, 0, 0, 0, 0, 0, 0, 0, 0,
         243, 36, 54, 185, 155, 47, 51, 66, 90, 36, 113, 20, 202, 45, 213, 187]
        [0x74, 0x65, 0x73, 0x74]
      = Inr [1, 2, 3, 4, 5]"
    unfolding d c Let_def n kf_recovered_five_bytes by (simp add: BLOCK_SIZE_def)
  have b: "kf_decrypt_file_cbc LittleEndian
        [0, 0, 0, 0, 0, 0, 0, 0, 0, 0, 0, 0, 0, 0, 0, 0,
         33, 115, 74, 67, 82, 246, 24, 34, 215, 145, 170, 112, 51, 179, 77, 195]
        [0x74, 0x65, 0x73, 0x74]
      = Inl OutOfBounds"
    unfolding d c Let_def n kf_recovered_length_200 by (simp add: BLOCK_SIZE_def)
  have z: "kf_decrypt_file_cbc LittleEndian [0, 0, 0, 0, 0, 0, 0, 0, 0, 0, 0, 0, 0, 0, 0, 0]
        [0x74, 0x65, 0x73, 0x74]
      = Inr []"
    unfolding d by (simp add: BLOCK_SIZE_def)
  show ?thesis
    using s a b z by (simp add: kf_recovered_length_200)
qed

text \<open>
  C1. The claim is the round trip for every passphrase. For a passphrase shorter than four
  bytes the key schedule reads outside the passphrase (the unsigned bound of C4), so
  neither function produces a stream: for the passphrase \<open>abc\<close> both have undefined
  behaviour, whatever the input, the initialization vector and the padding. For the
  passphrases on which the key schedule returns the round trip holds, as
  \<open>kf_cbc_round_trip\<close> shows.
\<close>

theorem kf_cbc_short_passphrase_fails:
  "kf_encrypt_file_cbc bo infile [0x61, 0x62, 0x63] iv padding = Inl OutOfBounds
   \<and> kf_decrypt_file_cbc bo infile [0x61, 0x62, 0x63] = Inl OutOfBounds"
  by (simp add: kf_encrypt_file_cbc_def kf_decrypt_file_cbc_def kf_expand_passphrase_def
      kf_expand_passphrase_key_abc)

section \<open>Every short passphrase fails, and the caller's context is overwritten\<close>

lemma kf_chunk_loop_underflow:
  "length mem < bound \<Longrightarrow> i \<le> length mem \<Longrightarrow>
   kf_chunk_loop mem bound i key sr = Inl OutOfBounds"
proof (induction "length mem - i" arbitrary: i key sr rule: less_induct)
  case less
  have ib: "i < bound"
    using less.prems by simp
  show ?case
  proof (cases "i + 3 < length mem")
    case False
    then show ?thesis
      by (rule kf_chunk_loop_out_of_bounds [OF ib])
  next
    case True
    then have "length mem - (i + 4) < length mem - i" "i + 4 \<le> length mem"
      by simp_all
    then have "kf_chunk_loop mem bound (i + 4) key' sr' = Inl OutOfBounds" for key' sr'
      using less.hyps less.prems(1) by blast
    then show ?thesis
      unfolding kf_chunk_loop_step [OF ib True] by (simp split: prod.splits)
  qed
qed

lemma kf_chunk_bound_short: "passlen < 4 \<Longrightarrow> kf_chunk_bound passlen = 2 ^ 64 - 4 + passlen"
  by (simp add: kf_chunk_bound_def size_t_sub_def SIZE_T_MOD_def)

lemma kf_expand_passphrase_short:
  assumes "strlen (c_string passphrase) < 4" and "length passphrase < 2 ^ 64 - 5"
  shows "kf_expand_passphrase passphrase ctx = Inl OutOfBounds"
proof -
  have b: "length (c_string passphrase) < kf_chunk_bound (strlen (c_string passphrase))"
    using assms by (simp add: kf_chunk_bound_short c_string_def)
  have n: "\<not> strlen (c_string passphrase) > 256"
    using assms(1) by simp
  show ?thesis
    unfolding kf_expand_passphrase_def kf_expand_passphrase_key_def Let_def if_not_P [OF n]
      kf_chunk_loop_underflow [OF b le0]
    by simp
qed

lemma kf_init_box_loop_overwrites:
  "length s = n \<Longrightarrow> length s' = n \<Longrightarrow> take i s = take i s' \<Longrightarrow>
   kf_init_box_loop n i s idx sr = kf_init_box_loop n i s' idx sr"
proof (induction "n - i" arbitrary: i s s' idx sr)
  case 0
  then have e: "take i s = s" "take i s' = s'"
    by simp_all
  have "s = s'"
    using "0.prems"(3) unfolding e .
  then show ?case
    by (rule arg_cong)
next
  case (Suc k)
  then have lt: "i < n" and k: "k = n - (i + 1)"
    by simp_all
  obtain byte sc where lb: "kf_lfsr_byte sr = (byte, sc)"
    by (cases "kf_lfsr_byte sr")
  define index where "index = unat byte mod (n - i)"
  define idx' where "idx' = memmove_list idx index (index + 1) (n - index - 1)"
  have unf: "kf_init_box_loop n i t idx sr = kf_init_box_loop n (i + 1) (t[i := idx ! index]) idx' sc"
    for t
    using lt lb by (subst kf_init_box_loop.simps) (simp add: index_def idx'_def Let_def)
  have t: "take (i + 1) (s[i := idx ! index]) = take (i + 1) (s'[i := idx ! index])"
    using lt Suc.prems by (simp add: take_Suc_conv_app_nth)
  have l: "length (s[i := idx ! index]) = n" "length (s'[i := idx ! index]) = n"
    using Suc.prems by simp_all
  show ?case
    unfolding unf by (rule Suc.hyps(1) [OF k l t])
qed

lemma kf_expand_passphrase_ctx_overwrites:
  assumes "\<forall>i<SBOX_COUNT. length (sbox c1 ! i) = SBOX_SIZE \<and> length (sbox c2 ! i) = SBOX_SIZE"
    and "length (pbox c1) = PBOX_SIZE" and "length (pbox c2) = PBOX_SIZE"
  shows "kf_expand_passphrase_ctx key c1 = kf_expand_passphrase_ctx key c2"
proof -
  have "kf_init_sbox (sbox c1 ! i) sd = kf_init_sbox (sbox c2 ! i) sd" if "i < SBOX_COUNT" for i sd
    unfolding kf_init_sbox_def using assms(1) that
    by (intro kf_init_box_loop_overwrites) simp_all
  moreover have "kf_init_pbox (pbox c1) sd = kf_init_pbox (pbox c2) sd" for sd
    unfolding kf_init_pbox_def using assms(2,3)
    by (intro kf_init_box_loop_overwrites) simp_all
  ultimately show ?thesis
    by (simp add: kf_expand_passphrase_ctx_def)
qed

end
